theory Spec2Isabelle
  imports Complex_Main "HOL-Library.Word" "HOL-Library.Multiset"
begin

section \<open>The scroll engine of the image-sequence player\<close>

text \<open>
  The repository holds three evolutions of one engine: \<^verbatim>\<open>script.js\<close> (native scroll, every
  frame fetched eagerly), \<^verbatim>\<open>unnamed/part_000\<close> and \<^verbatim>\<open>unnamed/part_001\<close> (virtual scroll,
  progressive frame store). The embedding follows \<^verbatim>\<open>unnamed/part_001\<close>, the most complete
  one; where a sibling differs in a line that matters, the sibling's function is embedded
  next to it under a suffixed name (\<open>_script\<close>, \<open>_part000\<close>).

  JavaScript numbers are IEEE doubles. They are modelled by \<^typ>\<open>real\<close>, and the numbers
  that the code only ever produces through \<^verbatim>\<open>Math.round\<close> or integer literals by
  \<^typ>\<open>int\<close>: rounding error, NaN and the infinities are outside this model. The lerp has a
  second model, in double arithmetic with every operation rounded, for the one property
  that rounding decides.
\<close>

subsection \<open>Configuration (the \<^verbatim>\<open>CONFIG\<close> object)\<close>

definition FRAME_COUNT :: int where
  "FRAME_COUNT = 150"

definition LERP_FACTOR :: real where
  "LERP_FACTOR = 8 / 100"

definition CANVAS_LERP :: real where
  "CANVAS_LERP = 14 / 100"

definition TARGET_FPS :: real where
  "TARGET_FPS = 60"

definition PRELOAD_RADIUS :: nat where
  "PRELOAD_RADIUS = 12"

definition BATCH_LOAD :: nat where
  "BATCH_LOAD = 3"

definition MIN_FRAMES_TO_START :: nat where
  "MIN_FRAMES_TO_START = 25"

subsection \<open>Library functions of the host language\<close>

text \<open>\<^verbatim>\<open>Math.round\<close> rounds to the nearest integer, a tie towards plus infinity.\<close>

definition Math_round :: "real \<Rightarrow> int" where
  "Math_round x = \<lfloor>x + 1 / 2\<rfloor>"

text \<open>
  \<^verbatim>\<open>Math.pow\<close>, for a positive base: every call of the engine has base \<open>1 - factor\<close> with
  the factor one of the two constants above.
\<close>

definition Math_pow :: "real \<Rightarrow> real \<Rightarrow> real" where
  "Math_pow b x = b powr x"

subsection \<open>Delta-time lerp\<close>

text \<open>\<^verbatim>\<open>lerp\<close> of \<^verbatim>\<open>unnamed/part_001\<close>: the snap distance is 0.5.\<close>

definition lerp :: "real \<Rightarrow> real \<Rightarrow> real \<Rightarrow> real \<Rightarrow> real" where
  "lerp current target factor dt =
     (let r = current + (target - current) * (1 - Math_pow (1 - factor) (dt * TARGET_FPS))
      in if \<bar>target - r\<bar> < 5 / 10 then target else r)"

text \<open>\<^verbatim>\<open>lerp\<close> of \<^verbatim>\<open>unnamed/part_000\<close>: the snap distance is 0.0005.\<close>

definition lerp_part000 :: "real \<Rightarrow> real \<Rightarrow> real \<Rightarrow> real \<Rightarrow> real" where
  "lerp_part000 c t f dt =
     (let r = c + (t - c) * (1 - Math_pow (1 - f) (dt * TARGET_FPS))
      in if \<bar>t - r\<bar> < 5 / 10000 then t else r)"

text \<open>\<^verbatim>\<open>lerp\<close> of \<^verbatim>\<open>script.js\<close>: the snap distance is 0.001.\<close>

definition lerp_script :: "real \<Rightarrow> real \<Rightarrow> real \<Rightarrow> real \<Rightarrow> real" where
  "lerp_script current target factor dt =
     (let f = 1 - Math_pow (1 - factor) (dt * TARGET_FPS);
          result = current + (target - current) * f
      in if \<bar>target - result\<bar> < 1 / 1000 then target else result)"

text \<open>
  The three differ in the snap distance only. \<open>lerp_snap\<close> is their common shape, with the
  decay \<open>p = (1 - factor) ^ (dt * TARGET_FPS)\<close> already computed; the lemmas below are
  proved once for it.
\<close>

definition lerp_snap :: "real \<Rightarrow> real \<Rightarrow> real \<Rightarrow> real \<Rightarrow> real" where
  "lerp_snap eps p c t = (if \<bar>t - c\<bar> * p < eps then t else t - (t - c) * p)"

definition decay :: "real \<Rightarrow> real \<Rightarrow> real" where
  "decay f dt = Math_pow (1 - f) (dt * TARGET_FPS)"


subsection \<open>The lerp in double arithmetic\<close>

text \<open>
  The code computes the lerp in IEEE 754 double precision: every operation returns the double
  nearest to the exact result, a tie going to the even significand. \<open>rd x\<close> is that double
  for a real \<open>x\<close>: \<open>binade x\<close> is the exponent of \<open>x\<close>, the doubles of that binade are the
  multiples of \<open>2 ^ (binade x - 52)\<close>, and \<open>round_even\<close> picks the nearest multiple. The
  exponent is not bounded: overflow and gradual underflow, which need magnitudes above
  \<open>2 ^ 1023\<close> or below \<open>2 ^ - 1022\<close>, are left out. The relative error of one rounding is at most
  \<open>unit_roundoff\<close>.
\<close>

definition round_even :: "real \<Rightarrow> int" where
  "round_even y =
     (let n = \<lfloor>y\<rfloor>; r = y - real_of_int n
      in if r < 1 / 2 then n else if r > 1 / 2 then n + 1 else if even n then n else n + 1)"

definition binade :: "real \<Rightarrow> int" where
  "binade x = \<lfloor>log 2 \<bar>x\<bar>\<rfloor>"

definition rd :: "real \<Rightarrow> real" where
  "rd x =
     (if x = 0 then 0
      else real_of_int (round_even (x / 2 powr real_of_int (binade x - 52)))
             * 2 powr real_of_int (binade x - 52))"

definition unit_roundoff :: real where
  "unit_roundoff = 1 / 2 ^ 53"

text \<open>
  The language standard leaves the accuracy of \<^verbatim>\<open>Math.pow\<close> to the engine, so the double
  lerps take it as a parameter \<open>pw\<close>. \<open>pow_accurate\<close> asks of it what the lerp needs: for a
  base in \<open>(0, 1]\<close> and a positive exponent a result in \<open>(0, 1]\<close> within one unit in the last
  place of the exact power. \<open>Math_pow_nearest\<close> returns the double nearest to the exact power,
  as engines do at the exponents 1 (the base itself) and 2 (the rounded square).
\<close>

definition pow_accurate :: "(real \<Rightarrow> real \<Rightarrow> real) \<Rightarrow> bool" where
  "pow_accurate pw \<longleftrightarrow>
     (\<forall>b e. 0 < b \<and> b \<le> 1 \<and> 0 < e \<longrightarrow>
        0 < pw b e \<and> pw b e \<le> 1 \<and> \<bar>pw b e - b powr e\<bar> \<le> 2 * unit_roundoff * b powr e)"

definition Math_pow_nearest :: "real \<Rightarrow> real \<Rightarrow> real" where
  "Math_pow_nearest b x = rd (b powr x)"

text \<open>
  The three lerps again, operation by operation as the source writes them, each result
  rounded. The arguments are doubles already; the constants 60 and 0.5 are doubles, the
  literals 0.0005 and 0.001 stand for the doubles nearest to them.
\<close>

definition lerp_double ::
  "(real \<Rightarrow> real \<Rightarrow> real) \<Rightarrow> real \<Rightarrow> real \<Rightarrow> real \<Rightarrow> real \<Rightarrow> real" where
  "lerp_double pw current target factor dt =
     (let r = rd (current + rd (rd (target - current)
                * rd (1 - pw (rd (1 - factor)) (rd (dt * TARGET_FPS)))))
      in if \<bar>rd (target - r)\<bar> < 5 / 10 then target else r)"

definition lerp_part000_double ::
  "(real \<Rightarrow> real \<Rightarrow> real) \<Rightarrow> real \<Rightarrow> real \<Rightarrow> real \<Rightarrow> real \<Rightarrow> real" where
  "lerp_part000_double pw c t f dt =
     (let r = rd (c + rd (rd (t - c) * rd (1 - pw (rd (1 - f)) (rd (dt * TARGET_FPS)))))
      in if \<bar>rd (t - r)\<bar> < rd (5 / 10000) then t else r)"

definition lerp_script_double ::
  "(real \<Rightarrow> real \<Rightarrow> real) \<Rightarrow> real \<Rightarrow> real \<Rightarrow> real \<Rightarrow> real \<Rightarrow> real" where
  "lerp_script_double pw current target factor dt =
     (let f = rd (1 - pw (rd (1 - factor)) (rd (dt * TARGET_FPS)));
          result = rd (current + rd (rd (target - current) * f))
      in if \<bar>rd (target - result)\<bar> < rd (1 / 1000) then target else result)"

text \<open>
  Their common shape: \<open>mix_double\<close> is the rounded update for a computed decay \<open>p\<close>, and
  \<open>snap_double\<close> the snap test on it.
\<close>

definition mix_double :: "real \<Rightarrow> real \<Rightarrow> real \<Rightarrow> real" where
  "mix_double c t p = rd (c + rd (rd (t - c) * rd (1 - p)))"

definition snap_double :: "real \<Rightarrow> real \<Rightarrow> real \<Rightarrow> real" where
  "snap_double eps t r = (if \<bar>rd (t - r)\<bar> < eps then t else r)"

text \<open>
  The double the literal \<^verbatim>\<open>10.67604110329908\<close> stands for: a target whose distance from 10
  puts the result of one update with \<open>dt = 2 / 60\<close> on the edge of the snap test.
\<close>

definition edge_target :: real where
  "edge_target = rd (1067604110329908 / 100000000000000)"

subsection \<open>Data of the engine\<close>

text \<open>
  A decoded image. \<open>img_src\<close> is the frame index whose URL (\<^verbatim>\<open>frameUrl(index)\<close>) the image was
  requested from; the intrinsic size is what the browser reports once the image has loaded.
\<close>

datatype image = Image (img_src: int) (img_width: real) (img_height: real)

text \<open>
  What the engine does to the outside, in order: a network request (\<^verbatim>\<open>new Image()\<close> with
  \<^verbatim>\<open>img.src = frameUrl(index)\<close>), the preloader's progress display, the two painting calls
  on the offscreen context, and the copy of the offscreen buffer onto the visible canvas.
  Style and class writes on DOM elements are not recorded: nothing reads them back.
\<close>

datatype effect =
    Request int
  | UpdatePreloader nat
  | FillRect real real
  | DrawImage image real real real real
  | Blit

text \<open>What the handlers read from \<^verbatim>\<open>window\<close> and the document.\<close>

record window =
  scrollY :: real
  scrollHeight :: real
  innerWidth :: real
  innerHeight :: real
  devicePixelRatio :: real
  contentOffsetHeight :: real

text \<open>
  The mutable variables of the module in one record: the fields of the \<^verbatim>\<open>state\<close> object, the
  canvas variables, the frame storage, and three fields for what lives in the browser:
  \<open>pending\<close>, the image objects whose \<^verbatim>\<open>onload\<close>/\<^verbatim>\<open>onerror\<close> has not fired yet (by frame
  index), \<open>offBuffer\<close>, the image painted last into the offscreen buffer (\<open>None\<close> for a fresh
  buffer), and \<open>trace\<close>, the effects so far. \<open>offCtx\<close> says that the offscreen canvas and its
  context exist; the code creates both in the same place. \<open>frames\<close> is a JavaScript array,
  a map from indices to values in which \<^verbatim>\<open>null\<close> and a missing entry are both falsy:
  \<open>None\<close>. \<open>frameStatus\<close> is a \<^verbatim>\<open>Uint8Array\<close>.
\<close>

record engine =
  targetScrollY :: real
  smoothScrollY :: real
  targetScrollProgress :: real
  smoothScrollProgress :: real
  currentFrame :: real
  displayedFrame :: int
  targetFrame :: int
  lastTime :: real
  mouseX :: real
  mouseY :: real
  smoothMouseX :: real
  smoothMouseY :: real
  contentHeight :: real
  offCtx :: bool
  canvasW :: real
  canvasH :: real
  dpr :: real
  frames :: "int \<rightharpoonup> image"
  frameStatus :: "8 word list"
  anyFrameReady :: bool
  framesLoadedCount :: nat
  preloadTimer :: bool
  pending :: "int multiset"
  offBuffer :: "image option"
  trace :: "effect list"

definition initial :: engine where
  "initial = \<lparr>
     targetScrollY = 0, smoothScrollY = 0,
     targetScrollProgress = 0, smoothScrollProgress = 0,
     currentFrame = - 1, displayedFrame = - 1, targetFrame = 0,
     lastTime = 0,
     mouseX = 0, mouseY = 0, smoothMouseX = 0, smoothMouseY = 0,
     contentHeight = 0,
     offCtx = False, canvasW = 0, canvasH = 0, dpr = 1,
     frames = Map.empty,
     frameStatus = replicate (nat FRAME_COUNT) 0,
     anyFrameReady = False, framesLoadedCount = 0,
     preloadTimer = False,
     pending = {#}, offBuffer = None, trace = [] \<rparr>"

text \<open>
  Reading and writing a typed array: an index outside the array reads \<^verbatim>\<open>undefined\<close>
  (\<open>None\<close>), and a write there is ignored.
\<close>

definition Uint8_get :: "8 word list \<Rightarrow> int \<Rightarrow> 8 word option" where
  "Uint8_get a i = (if 0 \<le> i \<and> i < int (length a) then Some (a ! nat i) else None)"

definition Uint8_set :: "8 word list \<Rightarrow> int \<Rightarrow> 8 word \<Rightarrow> 8 word list" where
  "Uint8_set a i v = (if 0 \<le> i \<and> i < int (length a) then a[nat i := v] else a)"

subsection \<open>Canvas\<close>

definition resizeCanvas :: "window \<Rightarrow> engine \<Rightarrow> engine" where
  "resizeCanvas win s =
     s\<lparr> dpr := min (if devicePixelRatio win = 0 then 1 else devicePixelRatio win) 2,
        canvasW := innerWidth win,
        canvasH := innerHeight win,
        offCtx := True,
        offBuffer := None,
        displayedFrame := - 1 \<rparr>"

definition syncBodyHeight :: "window \<Rightarrow> engine \<Rightarrow> engine" where
  "syncBodyHeight win s = s\<lparr> contentHeight := contentOffsetHeight win \<rparr>"

text \<open>
  The search loop of \<^verbatim>\<open>drawFrameToBuffer\<close>, over the distances \<open>d\<close> still to try: the
  lower neighbour is looked at before the upper one, and the first image found ends the loop.
\<close>

fun nearest_scan :: "(int \<rightharpoonup> image) \<Rightarrow> int \<Rightarrow> nat list \<Rightarrow> image option" where
  "nearest_scan fr index [] = None"
| "nearest_scan fr index (d # ds) =
     (if index - int d \<ge> 0 \<and> fr (index - int d) \<noteq> None then fr (index - int d)
      else if index + int d < FRAME_COUNT \<and> fr (index + int d) \<noteq> None then fr (index + int d)
      else nearest_scan fr index ds)"

text \<open>The image \<^verbatim>\<open>drawFrameToBuffer\<close> ends up with, \<open>None\<close> where it returns without drawing.\<close>

definition pick_image :: "(int \<rightharpoonup> image) \<Rightarrow> int \<Rightarrow> image option" where
  "pick_image fr index =
     (case fr index of
        Some img \<Rightarrow> Some img
      | None \<Rightarrow> nearest_scan fr index [1..<nat FRAME_COUNT])"

text \<open>
  The cover-fit rectangle \<open>(dx, dy, dw, dh)\<close>, for a canvas and an image of positive height.
\<close>

definition cover_fit :: "real \<Rightarrow> real \<Rightarrow> real \<Rightarrow> real \<Rightarrow> real \<times> real \<times> real \<times> real" where
  "cover_fit pw ph iw ih =
     (let ir = iw / ih; cr = pw / ph
      in if cr > ir then (0, (ph - pw / ir) / 2, pw, pw / ir)
         else ((pw - ph * ir) / 2, 0, ph * ir, ph))"

definition drawFrameToBuffer :: "int \<Rightarrow> engine \<Rightarrow> engine" where
  "drawFrameToBuffer index s =
     (if \<not> offCtx s then s
      else case pick_image (frames s) index of
        None \<Rightarrow> s
      | Some img \<Rightarrow>
          (let pw = canvasW s * dpr s;
               ph = canvasH s * dpr s;
               (dx, dy, dw, dh) = cover_fit pw ph (img_width img) (img_height img)
           in s\<lparr> offBuffer := Some img,
                 trace := trace s @ [FillRect pw ph, DrawImage img dx dy dw dh] \<rparr>))"

definition blitBuffer :: "engine \<Rightarrow> engine" where
  "blitBuffer s = (if \<not> offCtx s then s else s\<lparr> trace := trace s @ [Blit] \<rparr>)"

subsection \<open>Frame store\<close>

definition loadFrame :: "int \<Rightarrow> engine \<Rightarrow> engine" where
  "loadFrame index s =
     (if (case Uint8_get (frameStatus s) index of Some v \<Rightarrow> v \<ge> 1 | None \<Rightarrow> False) then s
      else s\<lparr> frameStatus := Uint8_set (frameStatus s) index 1,
               pending := add_mset index (pending s),
               trace := trace s @ [Request index] \<rparr>)"

definition updatePreloader :: "engine \<Rightarrow> engine" where
  "updatePreloader s = s\<lparr> trace := trace s @ [UpdatePreloader (framesLoadedCount s)] \<rparr>"

definition onFrameReady :: "window \<Rightarrow> int \<Rightarrow> engine \<Rightarrow> engine" where
  "onFrameReady win index s =
     (let s1 = updatePreloader (s\<lparr> framesLoadedCount := framesLoadedCount s + 1 \<rparr>)
      in if \<not> anyFrameReady s1
         then blitBuffer (drawFrameToBuffer index (resizeCanvas win (s1\<lparr> anyFrameReady := True \<rparr>)))
         else s1)"

text \<open>
  The two callbacks \<^verbatim>\<open>loadFrame\<close> installs on the image it creates. The browser fires
  exactly one of them, once, for an image whose \<^verbatim>\<open>src\<close> was set once; \<open>w\<close> and \<open>h\<close> are the
  size of the decoded image.
\<close>

definition img_onload :: "window \<Rightarrow> int \<Rightarrow> real \<Rightarrow> real \<Rightarrow> engine \<Rightarrow> engine" where
  "img_onload win index w h s =
     onFrameReady win index
       (s\<lparr> frames := (frames s)(index \<mapsto> Image index w h),
           frameStatus := Uint8_set (frameStatus s) index 2,
           pending := pending s - {#index#} \<rparr>)"

definition img_onerror :: "int \<Rightarrow> engine \<Rightarrow> engine" where
  "img_onerror index s =
     s\<lparr> frameStatus := Uint8_set (frameStatus s) index 0,
        pending := pending s - {#index#} \<rparr>"

subsection \<open>Progressive preloader\<close>

definition keyCount :: nat where
  "keyCount = 20"

definition seed_index :: "nat \<Rightarrow> int" where
  "seed_index i = Math_round (real i * real_of_int (FRAME_COUNT - 1) / real (keyCount - 1))"

definition preloadFrames :: "engine \<Rightarrow> engine" where
  "preloadFrames s =
     (fold (\<lambda>i. loadFrame (seed_index i)) [0..<keyCount] s)\<lparr> preloadTimer := True \<rparr>"

text \<open>The trickle loop of \<^verbatim>\<open>proximityLoad\<close>: \<open>loaded\<close> counts the requests made so far.\<close>

fun trickle :: "nat list \<Rightarrow> nat \<Rightarrow> engine \<Rightarrow> engine" where
  "trickle [] loaded s = s"
| "trickle (i # rest) loaded s =
     (if loaded < BATCH_LOAD
      then (if Uint8_get (frameStatus s) (int i) = Some 0
            then trickle rest (Suc loaded) (loadFrame (int i) s)
            else trickle rest loaded s)
      else s)"

definition proximityLoad :: "engine \<Rightarrow> engine" where
  "proximityLoad s =
     (let center = targetFrame s;
          s1 = fold (\<lambda>d s.
                 let s' = (if center + int d < FRAME_COUNT then loadFrame (center + int d) s else s)
                 in if center - int d \<ge> 0 then loadFrame (center - int d) s' else s')
               [0..<Suc PRELOAD_RADIUS] s;
          s2 = trickle [0..<nat FRAME_COUNT] 0 s1
      in if list_all (\<lambda>v. v \<ge> 1) (frameStatus s2) then s2\<lparr> preloadTimer := False \<rparr> else s2)"

subsection \<open>Scroll handler\<close>

definition onScroll :: "window \<Rightarrow> engine \<Rightarrow> engine" where
  "onScroll win s =
     (let mx = scrollHeight win - innerHeight win;
          progress = (if mx > 0 then min (scrollY win / mx) 1 else 0)
      in s\<lparr> targetScrollY := scrollY win,
            targetScrollProgress := progress,
            targetFrame := min (Math_round (progress * real_of_int (FRAME_COUNT - 1)))
                               (FRAME_COUNT - 1) \<rparr>)"

text \<open>\<^verbatim>\<open>onScroll\<close> of \<^verbatim>\<open>script.js\<close>, which also clamps the progress from below.\<close>

definition onScroll_script :: "window \<Rightarrow> engine \<Rightarrow> engine" where
  "onScroll_script win s =
     (let maxScroll = scrollHeight win - innerHeight win;
          progress = (if maxScroll > 0 then min (max (scrollY win / maxScroll) 0) 1 else 0)
      in s\<lparr> targetScrollY := scrollY win,
            targetScrollProgress := progress,
            targetFrame := min (Math_round (progress * real_of_int (FRAME_COUNT - 1)))
                               (FRAME_COUNT - 1) \<rparr>)"

definition onMouseMove :: "window \<Rightarrow> real \<Rightarrow> real \<Rightarrow> engine \<Rightarrow> engine" where
  "onMouseMove win clientX clientY s =
     s\<lparr> mouseX := (clientX / innerWidth win - 5 / 10) * 2,
        mouseY := (clientY / innerHeight win - 5 / 10) * 2 \<rparr>"

subsection \<open>The animation tick\<close>

text \<open>
  The first line of \<^verbatim>\<open>animate\<close>: \<^verbatim>\<open>Math.min((timestamp - state.lastTime) / 1000, 0.1) || 0.016\<close>.
  Of the real numbers only zero is falsy; \<^verbatim>\<open>requestAnimationFrame\<close> always passes a number as
  the timestamp.
\<close>

definition animate_dt :: "real \<Rightarrow> engine \<Rightarrow> real" where
  "animate_dt timestamp s =
     (let d = min ((timestamp - lastTime s) / 1000) (1 / 10)
      in if d = 0 then 16 / 1000 else d)"

text \<open>The smoothed frame position \<^verbatim>\<open>sf\<close> of a tick, and its rounding \<^verbatim>\<open>renderFrame\<close>.\<close>

definition animate_sf :: "real \<Rightarrow> engine \<Rightarrow> real" where
  "animate_sf timestamp s =
     lerp (if currentFrame s < 0 then real_of_int (targetFrame s) else currentFrame s)
          (real_of_int (targetFrame s)) CANVAS_LERP (animate_dt timestamp s)"

definition renderFrame :: "real \<Rightarrow> engine \<Rightarrow> int" where
  "renderFrame timestamp s = Math_round (animate_sf timestamp s)"

definition animate :: "real \<Rightarrow> engine \<Rightarrow> engine" where
  "animate timestamp s =
     (let dt = animate_dt timestamp s;
          s1 = s\<lparr> lastTime := timestamp \<rparr>;
          s2 = s1\<lparr> smoothScrollY := lerp (smoothScrollY s1) (targetScrollY s1) LERP_FACTOR dt \<rparr>;
          s3 = s2\<lparr> smoothScrollProgress :=
                    lerp (smoothScrollProgress s2) (targetScrollProgress s2) CANVAS_LERP dt \<rparr>;
          sf = animate_sf timestamp s;
          s4 = s3\<lparr> currentFrame := sf \<rparr>;
          rf = Math_round sf;
          s5 = (if rf \<noteq> displayedFrame s4 \<and> anyFrameReady s4
                then let cf = min (max rf 0) (FRAME_COUNT - 1)
                     in (blitBuffer (drawFrameToBuffer cf s4))\<lparr> displayedFrame := cf \<rparr>
                else s4);
          s6 = s5\<lparr> smoothMouseX := smoothMouseX s5 + (mouseX s5 - smoothMouseX s5) * (4 / 100) \<rparr>
      in s6\<lparr> smoothMouseY := smoothMouseY s6 + (mouseY s6 - smoothMouseY s6) * (4 / 100) \<rparr>)"

subsection \<open>Resize, start-up and the events of a run\<close>

text \<open>The body of the debounced timeout of \<^verbatim>\<open>onResize\<close>.\<close>

definition onResize :: "window \<Rightarrow> engine \<Rightarrow> engine" where
  "onResize win s =
     (let s1 = syncBodyHeight win (resizeCanvas win s)
      in if displayedFrame s1 \<ge> 0 then blitBuffer (drawFrameToBuffer (displayedFrame s1) s1) else s1)"

text \<open>\<^verbatim>\<open>init\<close>, as far as it touches the variables above.\<close>

definition init :: "window \<Rightarrow> engine" where
  "init win = onScroll win (preloadFrames (syncBodyHeight win initial))"

text \<open>
  One event of the single-threaded run: a scroll notification, the resize timeout, a mouse
  move, an animation frame, a tick of the preload interval while it is armed, and the load or
  the failure of an image that is still pending.
\<close>

inductive step :: "engine \<Rightarrow> engine \<Rightarrow> bool" where
  scroll: "step s (onScroll win s)"
| resize: "step s (onResize win s)"
| mouse: "step s (onMouseMove win x y s)"
| tick: "step s (animate timestamp s)"
| timer: "preloadTimer s \<Longrightarrow> step s (proximityLoad s)"
| loaded: "index \<in># pending s \<Longrightarrow> step s (img_onload win index w h s)"
| failed: "index \<in># pending s \<Longrightarrow> step s (img_onerror index s)"

inductive reachable :: "engine \<Rightarrow> bool" where
  start: "reachable (init win)"
| later: "reachable s \<Longrightarrow> step s s' \<Longrightarrow> reachable s'"

text \<open>An index of the frame sequence, and the status of a frame.\<close>

definition in_range :: "int \<Rightarrow> bool" where
  "in_range i \<longleftrightarrow> 0 \<le> i \<and> i < FRAME_COUNT"

definition status :: "engine \<Rightarrow> int \<Rightarrow> 8 word option" where
  "status s i = Uint8_get (frameStatus s) i"

subsection \<open>Concrete inputs\<close>

text \<open>
  A window of 1200 by 800 pixels over a document 1800 pixels high (a maximum scroll extent of
  1000), at rest; and the same window while the browser reports a scroll offset of -100, as
  it does during an elastic overscroll at the top of the page.
\<close>

definition desktop :: window where
  "desktop = \<lparr> scrollY = 0, scrollHeight = 1800, innerWidth = 1200, innerHeight = 800,
      devicePixelRatio = 1, contentOffsetHeight = 1800 \<rparr>"

definition negative_scroll :: window where
  "negative_scroll = desktop\<lparr> scrollY := - 100 \<rparr>"

subsection \<open>The invariant of the frame store\<close>

text \<open>
  The status array keeps its length; a slot of \<open>frames\<close> holds an image exactly when the
  frame's status is 2; and a frame has one pending image while its status is 1 and none
  otherwise.
\<close>

definition store_inv :: "engine \<Rightarrow> bool" where
  "store_inv s \<longleftrightarrow>
     length (frameStatus s) = nat FRAME_COUNT
     \<and> (\<forall>i. in_range i \<longrightarrow>
           (frames s i \<noteq> None \<longleftrightarrow> status s i = Some 2)
           \<and> count (pending s) i = (if status s i = Some 1 then 1 else 0))"

text \<open>
  The engine after start-up in that window at rest, once the image of frame 0 (one of the
  seed requests) has loaded at 1920 by 1080 pixels; and after the first animation frame that
  follows, at timestamp 1000 ms.
\<close>

definition first_loaded :: engine where
  "first_loaded = img_onload desktop 0 1920 1080 (init desktop)"

definition first_shown :: engine where
  "first_shown = animate 1000 first_loaded"

text \<open>
  The engine after start-up in that window once the images of the frames 8 and 16 (two of
  the seed requests) have loaded, in this order.
\<close>

definition two_loaded :: engine where
  "two_loaded = img_onload desktop 16 1920 1080 (img_onload desktop 8 1920 1080 (init desktop))"

section \<open>Properties of the lerp\<close>

lemma snap_shape:
  assumes "0 \<le> p"
  shows "(let r = c + (t - c) * (1 - p) in if \<bar>t - r\<bar> < eps then t else r) = lerp_snap eps p c t"
proof -
  have e: "t - (c + (t - c) * (1 - p)) = (t - c) * p" by (simp add: algebra_simps)
  have a: "\<bar>(t - c) * p\<bar> = \<bar>t - c\<bar> * p" using assms by (simp add: abs_mult)
  have r: "c + (t - c) * (1 - p) = t - (t - c) * p" by (simp add: algebra_simps)
  show ?thesis
    unfolding Let_def lerp_snap_def e a by (simp only: r)
qed

lemma decay_nonneg: "0 \<le> decay f dt"
  by (simp add: decay_def Math_pow_def)

lemma lerp_is_snap: "lerp c t f dt = lerp_snap (5 / 10) (decay f dt) c t"
  unfolding lerp_def decay_def [symmetric] by (rule snap_shape [OF decay_nonneg])

lemma lerp_part000_is_snap: "lerp_part000 c t f dt = lerp_snap (5 / 10000) (decay f dt) c t"
  unfolding lerp_part000_def decay_def [symmetric] by (rule snap_shape [OF decay_nonneg])

lemma lerp_script_is_snap: "lerp_script c t f dt = lerp_snap (1 / 1000) (decay f dt) c t"
  using snap_shape [OF decay_nonneg, of c t f dt "1 / 1000"]
  by (simp add: lerp_script_def decay_def Let_def)

lemma decay_lt_1: "0 < f \<Longrightarrow> f < 1 \<Longrightarrow> 0 < dt \<Longrightarrow> decay f dt < 1"
  by (simp add: decay_def Math_pow_def TARGET_FPS_def powr01_less_one)

lemma decay_double: "decay f (2 * h) = decay f h * decay f h"
proof -
  have "2 * h * TARGET_FPS = h * TARGET_FPS + h * TARGET_FPS" by simp
  then show ?thesis by (simp only: decay_def Math_pow_def powr_add)
qed

lemma lerp_snap_twice:
  assumes "0 \<le> p" "p \<le> 1"
  shows "lerp_snap eps (p * p) c t = lerp_snap eps p (lerp_snap eps p c t) t"
proof (cases "\<bar>t - c\<bar> * p < eps")
  case True
  have "\<bar>t - c\<bar> * p * p \<le> \<bar>t - c\<bar> * p"
    using assms by (intro mult_left_le) simp_all
  with True have "\<bar>t - c\<bar> * (p * p) < eps" by (simp add: mult.assoc)
  with True show ?thesis by (simp add: lerp_snap_def)
next
  case False
  have "t - (t - (t - c) * p) = (t - c) * p" by simp
  then have "\<bar>t - (t - (t - c) * p)\<bar> * p = \<bar>t - c\<bar> * (p * p)"
    using assms by (simp add: abs_mult)
  moreover have "t - (t - (t - (t - c) * p)) * p = t - (t - c) * (p * p)" by simp
  ultimately show ?thesis using False by (simp only: lerp_snap_def if_False)
qed

lemma lerp_variants:
  assumes "L = lerp \<or> L = lerp_part000 \<or> L = lerp_script"
  shows "\<exists>eps>0. \<forall>c t f dt. L c t f dt = lerp_snap eps (decay f dt) c t"
proof -
  from assms consider "L = lerp" | "L = lerp_part000" | "L = lerp_script" by blast
  then show ?thesis
  proof cases
    case 1
    show ?thesis by (rule exI [of _ "5 / 10"]) (simp add: 1 lerp_is_snap)
  next
    case 2
    show ?thesis by (rule exI [of _ "5 / 10000"]) (simp add: 2 lerp_part000_is_snap)
  next
    case 3
    show ?thesis by (rule exI [of _ "1 / 1000"]) (simp add: 3 lerp_script_is_snap)
  qed
qed

text \<open>
  In exact arithmetic one update with \<open>dt = 2 * h\<close> gives the same value as two successive
  updates with \<open>dt = h\<close>, snap included. This is a fact about the real-number lerps only:
  the snap test is discontinuous, and in double arithmetic a rounding error of one unit in
  the last place can decide it either way (see the double lerps below).
\<close>

lemma lerp_exact_two_steps:
  assumes "L = lerp \<or> L = lerp_part000 \<or> L = lerp_script"
    and "0 < f" and "f < 1" and "0 < h"
  shows "L c t f (2 * h) = L (L c t f h) t f h"
proof -
  from lerp_variants [OF assms(1)]
  obtain eps where L: "\<forall>c t f dt. L c t f dt = lerp_snap eps (decay f dt) c t"
    by blast
  have "decay f h \<le> 1"
    using decay_lt_1 [OF assms(2-4)] by simp
  then show ?thesis
    by (simp only: L decay_double lerp_snap_twice [OF decay_nonneg])
qed


lemma snap_target: "lerp_snap eps p t t = t"
  by (simp add: lerp_snap_def)







section \<open>The lerp in double arithmetic\<close>

text \<open>Rounding to the nearest double.\<close>

lemma round_even_err: "\<bar>real_of_int (round_even y) - y\<bar> \<le> 1 / 2"
  unfolding round_even_def Let_def by (auto simp: abs_le_iff)

lemma round_even_ge: "real_of_int a \<le> y \<Longrightarrow> a \<le> round_even y"
  unfolding round_even_def Let_def by (auto simp: le_floor_iff) linarith+

lemma round_even_le: "y \<le> real_of_int b \<Longrightarrow> round_even y \<le> b"
  unfolding round_even_def Let_def by (auto simp: floor_le_iff)

lemma round_even_near:
  assumes "\<bar>y - real_of_int n\<bar> < 1 / 2"
  shows "round_even y = n"
proof -
  have "\<bar>real_of_int (round_even y) - real_of_int n\<bar> < 1"
    using round_even_err [of y] assms by linarith
  then show ?thesis by linarith
qed

lemma binade_bounds:
  assumes "x \<noteq> 0"
  shows "2 powr real_of_int (binade x) \<le> \<bar>x\<bar>" and "\<bar>x\<bar> < 2 powr real_of_int (binade x + 1)"
proof -
  have pos: "0 < \<bar>x\<bar>" using assms by simp
  have "real_of_int (binade x) \<le> log 2 \<bar>x\<bar>" by (simp add: binade_def)
  then show "2 powr real_of_int (binade x) \<le> \<bar>x\<bar>"
    using pos by (simp add: le_log_iff)
  have "log 2 \<bar>x\<bar> < real_of_int (binade x + 1)" by (simp add: binade_def)
  then show "\<bar>x\<bar> < 2 powr real_of_int (binade x + 1)"
    using pos by (simp add: log_less_iff)
qed

lemma binade_unique:
  assumes "2 powr real_of_int e \<le> \<bar>x\<bar>" and "\<bar>x\<bar> < 2 powr real_of_int (e + 1)"
  shows "binade x = e"
proof -
  have pos: "0 < \<bar>x\<bar>"
    using assms(1) powr_gt_zero [of 2 "real_of_int e"] by linarith
  have "real_of_int e \<le> log 2 \<bar>x\<bar>" using assms(1) pos by (simp add: le_log_iff)
  moreover have "log 2 \<bar>x\<bar> < real_of_int e + 1" using assms(2) pos by (simp add: log_less_iff)
  ultimately show ?thesis unfolding binade_def by (intro floor_unique) simp_all
qed

lemma rd_0: "rd 0 = 0"
  by (simp add: rd_def)

text \<open>The value of \<open>rd\<close> once the binade is known.\<close>

lemma rd_binade:
  assumes "2 powr real_of_int e \<le> \<bar>x\<bar>" and "\<bar>x\<bar> < 2 powr real_of_int (e + 1)"
  shows "rd x = real_of_int (round_even (x / 2 powr real_of_int (e - 52))) * 2 powr real_of_int (e - 52)"
proof -
  have "x \<noteq> 0" using assms(1) powr_gt_zero [of 2 "real_of_int e"] by auto
  then show ?thesis by (simp add: rd_def binade_unique [OF assms])
qed


lemma pow2_scale: "2 powr real_of_int (int n - int k) = (2::real) ^ n / 2 ^ k"
proof -
  have "2 powr real_of_int (int n - int k) = (2::real) powr (real n - real k)" by simp
  also have "\<dots> = 2 powr real n / 2 powr real k" by (rule powr_diff)
  also have "\<dots> = 2 ^ n / 2 ^ k" by (simp add: powr_realpow)
  finally show ?thesis .
qed

lemma rd_value:
  assumes "2 ^ 52 \<le> x * 2 ^ k" and "x * 2 ^ k < 2 ^ 53" and "\<bar>x * 2 ^ k - real_of_int n\<bar> < 1 / 2"
  shows "rd x = real_of_int n / 2 ^ k"
proof -
  have P: "0 < (2::real) ^ k" by simp
  have "0 < x * 2 ^ k"
    using assms(1) zero_less_power [of "2::real" 52] by linarith
  then have x: "0 < x" using P by (simp add: zero_less_mult_iff)
  have e0: "2 powr real_of_int (52 - int k) = (2::real) ^ 52 / 2 ^ k"
    using pow2_scale [of 52 k] by simp
  have e1: "2 powr real_of_int (52 - int k + 1) = (2::real) ^ 53 / 2 ^ k"
    using pow2_scale [of 53 k] by (simp add: algebra_simps)
  have e2: "2 powr real_of_int (52 - int k - 52) = 1 / (2::real) ^ k"
    using pow2_scale [of 0 k] by simp
  have lo: "2 powr real_of_int (52 - int k) \<le> \<bar>x\<bar>"
    unfolding e0 using assms(1) x P by (simp only: abs_of_pos pos_divide_le_eq)
  have hi: "\<bar>x\<bar> < 2 powr real_of_int (52 - int k + 1)"
    unfolding e1 using assms(2) x P by (simp only: abs_of_pos pos_less_divide_eq)
  have "x / (1 / 2 ^ k) = x * 2 ^ k" by simp
  then show ?thesis
    unfolding rd_binade [OF lo hi] e2 using round_even_near [OF assms(3)] by simp
qed


lemma unit_roundoff_pos: "0 < unit_roundoff"
  by (simp add: unit_roundoff_def)

lemma rd_err: "\<bar>rd x - x\<bar> \<le> unit_roundoff * \<bar>x\<bar>"
proof (cases "x = 0")
  case True
  then show ?thesis by (simp add: rd_def)
next
  case False
  define s where "s = 2 powr real_of_int (binade x - 52)"
  have s: "0 < s" by (simp add: s_def)
  have "s = 2 powr real_of_int (binade x) / 2 powr 52"
    by (simp add: s_def powr_diff)
  also have "\<dots> \<le> \<bar>x\<bar> / 2 powr 52"
    using binade_bounds(1) [OF False] by (simp add: divide_right_mono)
  finally have small: "s / 2 \<le> unit_roundoff * \<bar>x\<bar>"
    by (simp add: unit_roundoff_def)
  have "rd x - x = (real_of_int (round_even (x / s)) - x / s) * s"
    using False s by (simp add: rd_def s_def algebra_simps)
  then have "\<bar>rd x - x\<bar> = \<bar>real_of_int (round_even (x / s)) - x / s\<bar> * s"
    using s by (simp add: abs_mult)
  also have "\<dots> \<le> 1 / 2 * s"
    using round_even_err [of "x / s"] s by (intro mult_right_mono) simp_all
  finally show ?thesis using small by simp
qed

lemma rd_in_binade:
  assumes "0 < x"
  shows "2 powr real_of_int (binade x) \<le> rd x" and "rd x \<le> 2 powr real_of_int (binade x + 1)"
proof -
  define s where "s = 2 powr real_of_int (binade x - 52)"
  have s: "0 < s" by (simp add: s_def)
  have x: "x \<noteq> 0" "\<bar>x\<bar> = x" using assms by simp_all
  have lo: "2 powr real_of_int (binade x) = 2 ^ 52 * s"
    by (simp add: s_def powr_diff)
  have hi: "2 powr real_of_int (binade x + 1) = 2 ^ 53 * s"
    by (simp add: s_def powr_diff powr_add)
  have r: "rd x = real_of_int (round_even (x / s)) * s"
    using x by (simp add: rd_def s_def)
  have "2 ^ 52 * s \<le> x" using binade_bounds(1) [OF x(1)] x(2) lo by simp
  then have "real_of_int (2 ^ 52) \<le> x / s" using s by (simp add: pos_le_divide_eq)
  then have "(2 ^ 52 :: int) \<le> round_even (x / s)" by (rule round_even_ge)
  then have "real_of_int (2 ^ 52) \<le> real_of_int (round_even (x / s))" by (simp only: of_int_le_iff)
  then show "2 powr real_of_int (binade x) \<le> rd x"
    unfolding lo r using s by (intro mult_right_mono) simp_all
  have "x < 2 ^ 53 * s" using binade_bounds(2) [OF x(1)] x(2) hi by simp
  then have "x / s \<le> real_of_int (2 ^ 53)" using s by (simp add: pos_divide_le_eq)
  then have "round_even (x / s) \<le> (2 ^ 53 :: int)" by (rule round_even_le)
  then have "real_of_int (round_even (x / s)) \<le> real_of_int (2 ^ 53)" by (simp only: of_int_le_iff)
  then show "rd x \<le> 2 powr real_of_int (binade x + 1)"
    unfolding hi r using s by (intro mult_right_mono) simp_all
qed

lemma rd_pos: "0 < x \<Longrightarrow> 0 < rd x"
  using rd_in_binade(1) [of x] powr_gt_zero [of 2 "real_of_int (binade x)"] by linarith

lemma rd_nonneg: "0 \<le> x \<Longrightarrow> 0 \<le> rd x"
  using rd_pos [of x] rd_0 by (cases "x = 0") auto

lemma rd_1: "rd 1 = 1"
  using rd_value [of 1 52 "2 ^ 52"] by simp

lemma rd_le_1:
  assumes "0 < x" and "x \<le> 1"
  shows "rd x \<le> 1"
proof (cases "x = 1")
  case True
  then show ?thesis by (simp add: rd_1)
next
  case False
  with assms have "x < 1" by simp
  have "2 powr real_of_int (binade x) \<le> x"
    using binade_bounds(1) [of x] assms(1) by simp
  with \<open>x < 1\<close> have below: "2 powr real_of_int (binade x) < 1" by simp
  have "binade x < 0"
  proof (rule ccontr)
    assume "\<not> binade x < 0"
    then have "0 \<le> real_of_int (binade x)" by simp
    then have "1 \<le> 2 powr real_of_int (binade x)"
      by (intro ge_one_powr_ge_zero) simp_all
    with below show False by linarith
  qed
  then have "binade x + 1 \<le> 0" by linarith
  then have "2 powr real_of_int (binade x + 1) \<le> 2 powr 0"
    by (intro powr_mono) simp_all
  with rd_in_binade(2) [OF assms(1)] show ?thesis by simp
qed

lemma binade_twice: "x \<noteq> 0 \<Longrightarrow> binade (2 * x) = binade x + 1"
proof -
  assume x: "x \<noteq> 0"
  have "2 powr real_of_int (binade x + 1) \<le> \<bar>2 * x\<bar>"
    using binade_bounds(1) [OF x] by (simp add: powr_add)
  moreover have "\<bar>2 * x\<bar> < 2 powr real_of_int (binade x + 1 + 1)"
    using binade_bounds(2) [OF x] by (simp add: powr_add)
  ultimately show ?thesis by (rule binade_unique)
qed

lemma rd_twice: "rd (2 * x) = 2 * rd x"
proof (cases "x = 0")
  case True
  then show ?thesis by (simp add: rd_0)
next
  case False
  have "2 powr real_of_int (binade x + 1 - 52) = 2 * 2 powr real_of_int (binade x - 52)"
    by (simp add: powr_add powr_diff)
  then show ?thesis
    using False by (simp add: rd_def binade_twice)
qed


text \<open>The rounding error of one update, for a decay \<open>p\<close> in \<open>[0, 1]\<close>.\<close>

lemma unit_roundoff_small: "unit_roundoff \<le> 1 / 64"
  by (simp add: unit_roundoff_def)

lemma rd_unit_interval:
  assumes "0 \<le> x" and "x \<le> 1"
  shows "0 \<le> rd x" and "rd x \<le> 1" and "\<bar>rd x - x\<bar> \<le> unit_roundoff"
proof -
  show "0 \<le> rd x" using assms(1) by (rule rd_nonneg)
  show "rd x \<le> 1"
    using rd_le_1 [of x] assms rd_0 by (cases "x = 0") auto
  have "unit_roundoff * \<bar>x\<bar> \<le> unit_roundoff * 1"
    using assms unit_roundoff_pos by (intro mult_left_mono) simp_all
  with rd_err [of x] show "\<bar>rd x - x\<bar> \<le> unit_roundoff" by simp
qed

lemma mix_double_err:
  assumes "0 \<le> p" and "p \<le> 1"
  shows "\<bar>mix_double c t p - (t - (t - c) * p)\<bar> \<le> unit_roundoff * (\<bar>c\<bar> + 6 * \<bar>t - c\<bar>)"
proof -
  define u where "u = unit_roundoff"
  define d where "d = t - c"
  define g where "g = rd d"
  define k where "k = rd (1 - p)"
  define m where "m = rd (g * k)"
  have u: "0 < u" "u \<le> 1 / 64"
    using unit_roundoff_pos unit_roundoff_small by (simp_all add: u_def)
  have g_err: "\<bar>g - d\<bar> \<le> u * \<bar>d\<bar>"
    unfolding g_def u_def by (rule rd_err)
  then have g_abs: "\<bar>g\<bar> \<le> 2 * \<bar>d\<bar>"
  proof -
    have "u * \<bar>d\<bar> \<le> 1 * \<bar>d\<bar>" using u by (intro mult_right_mono) simp_all
    with g_err show ?thesis by linarith
  qed
  have k: "0 \<le> k" "k \<le> 1" "\<bar>k - (1 - p)\<bar> \<le> u"
    unfolding k_def u_def using assms by (simp_all add: rd_unit_interval)
  have "g * k - d * (1 - p) = (g - d) * k + d * (k - (1 - p))"
    by (simp add: algebra_simps)
  then have "\<bar>g * k - d * (1 - p)\<bar> \<le> \<bar>g - d\<bar> * \<bar>k\<bar> + \<bar>d\<bar> * \<bar>k - (1 - p)\<bar>"
    by (simp add: abs_mult [symmetric]) 
  also have "\<dots> \<le> u * \<bar>d\<bar> * 1 + \<bar>d\<bar> * u"
    using g_err k by (intro add_mono mult_mono) simp_all
  finally have gk: "\<bar>g * k - d * (1 - p)\<bar> \<le> 2 * u * \<bar>d\<bar>" by simp
  have "\<bar>g * k\<bar> \<le> \<bar>g\<bar> * 1"
    unfolding abs_mult using k by (intro mult_left_mono) simp_all
  with g_abs have gk_abs: "\<bar>g * k\<bar> \<le> 2 * \<bar>d\<bar>" by simp
  have "\<bar>m - g * k\<bar> \<le> u * \<bar>g * k\<bar>"
    unfolding m_def u_def by (rule rd_err)
  also have "\<dots> \<le> u * (2 * \<bar>d\<bar>)"
    using gk_abs u by (intro mult_left_mono) simp_all
  finally have m_err: "\<bar>m - d * (1 - p)\<bar> \<le> 4 * u * \<bar>d\<bar>"
    using gk by linarith
  have "\<bar>d * (1 - p)\<bar> \<le> \<bar>d\<bar> * 1"
    unfolding abs_mult using assms by (intro mult_left_mono) simp_all
  moreover have "4 * u * \<bar>d\<bar> \<le> 1 * \<bar>d\<bar>"
    using u by (intro mult_right_mono) simp_all
  ultimately have m_abs: "\<bar>m\<bar> \<le> 2 * \<bar>d\<bar>"
    using m_err by linarith
  have "\<bar>rd (c + m) - (c + m)\<bar> \<le> u * \<bar>c + m\<bar>"
    unfolding u_def by (rule rd_err)
  also have "\<dots> \<le> u * (\<bar>c\<bar> + 2 * \<bar>d\<bar>)"
    using m_abs u by (intro mult_left_mono) linarith+
  finally have r_err: "\<bar>rd (c + m) - (c + m)\<bar> \<le> u * \<bar>c\<bar> + 2 * u * \<bar>d\<bar>"
    by (simp add: algebra_simps)
  have "t - (t - c) * p = c + d * (1 - p)"
    by (simp add: d_def algebra_simps)
  moreover have "mix_double c t p = rd (c + m)"
    by (simp add: mix_double_def m_def g_def k_def d_def)
  ultimately have "\<bar>mix_double c t p - (t - (t - c) * p)\<bar> \<le> u * \<bar>c\<bar> + 6 * u * \<bar>d\<bar>"
    using r_err m_err by simp
  then show ?thesis by (simp add: u_def d_def algebra_simps)
qed


text \<open>A value that snaps is within the snap distance, up to the rounding of the test.\<close>

lemma snap_double_close:
  assumes "\<bar>rd (t - r)\<bar> < eps"
  shows "\<bar>t - r\<bar> < eps * (1 + 2 * unit_roundoff)"
proof -
  define u where "u = unit_roundoff"
  define a where "a = \<bar>t - r\<bar>"
  have u: "0 < u" "u \<le> 1 / 64"
    using unit_roundoff_pos unit_roundoff_small by (simp_all add: u_def)
  have a: "0 \<le> a" by (simp add: a_def)
  have "\<bar>rd (t - r) - (t - r)\<bar> \<le> u * a"
    unfolding u_def a_def by (rule rd_err)
  with assms have lt: "a - u * a < eps" unfolding a_def by linarith
  have eps: "0 < eps" using assms by linarith
  have "a < eps * (1 + 2 * u)"
  proof (rule ccontr)
    assume "\<not> a < eps * (1 + 2 * u)"
    then have ge: "eps * (1 + 2 * u) \<le> a" by simp
    have "(1 - u) * (eps * (1 + 2 * u)) \<le> (1 - u) * a"
      using ge u by (intro mult_left_mono) simp_all
    moreover have "(1 - u) * (eps * (1 + 2 * u)) = eps + eps * (u * (1 - 2 * u))"
      by (simp add: algebra_simps)
    moreover have "0 \<le> eps * (u * (1 - 2 * u))"
      using eps u by (intro mult_nonneg_nonneg) simp_all
    ultimately have "eps \<le> (1 - u) * a" by linarith
    with lt show False by (simp add: algebra_simps)
  qed
  then show ?thesis by (simp add: u_def a_def)
qed

lemma mix_double_same:
  assumes "rd t = t"
  shows "mix_double t t p = t"
  by (simp add: mix_double_def rd_0 assms)

lemma snap_double_cases:
  "(snap_double eps t r = t \<and> \<bar>t - r\<bar> < eps * (1 + 2 * unit_roundoff)) \<or> snap_double eps t r = r"
  by (cases "\<bar>rd (t - r)\<bar> < eps") (simp_all add: snap_double_def snap_double_close)

text \<open>
  The computed decay for \<open>dt = 2 * h\<close> is the square of the one for \<open>dt = h\<close> up to six units of
  rounding: doubling commutes with rounding, so the exponent passed to \<^verbatim>\<open>Math.pow\<close> is
  exactly doubled.
\<close>

lemma double_decay_pair:
  assumes "pow_accurate pw" and "0 < f" and "f < 1" and "0 < h"
  defines "b \<equiv> rd (1 - f)"
  defines "p1 \<equiv> pw b (rd (h * TARGET_FPS))" and "p2 \<equiv> pw b (rd (2 * h * TARGET_FPS))"
  shows "0 \<le> p1 \<and> p1 \<le> 1 \<and> 0 \<le> p2 \<and> p2 \<le> 1 \<and> \<bar>p2 - p1 * p1\<bar> \<le> 6 * unit_roundoff"
proof -
  define u where "u = unit_roundoff"
  define e where "e = rd (h * TARGET_FPS)"
  define q where "q = b powr e"
  have u: "0 < u" "u \<le> 1 / 64"
    using unit_roundoff_pos unit_roundoff_small by (simp_all add: u_def)
  have b: "0 < b" "b \<le> 1"
    unfolding b_def using assms(2,3) by (simp_all add: rd_pos rd_le_1)
  have e: "0 < e" unfolding e_def using assms(4) by (simp add: rd_pos TARGET_FPS_def)
  have e2: "rd (2 * h * TARGET_FPS) = 2 * e"
    unfolding e_def using rd_twice [of "h * TARGET_FPS"] by (simp add: mult.assoc)
  have q: "0 < q" "q \<le> 1"
    unfolding q_def using b e by (simp_all add: powr_le1)
  have qq: "b powr (2 * e) = q * q"
    unfolding q_def using powr_add [of b e e] by simp
  from assms(1) b e have a1: "0 < p1" "p1 \<le> 1" "\<bar>p1 - q\<bar> \<le> 2 * u * q"
    unfolding pow_accurate_def p1_def e_def [symmetric] q_def u_def by blast+
  from assms(1) b e have a2: "0 < p2" "p2 \<le> 1" "\<bar>p2 - q * q\<bar> \<le> 2 * u * (q * q)"
    unfolding pow_accurate_def p2_def e2 qq [symmetric] u_def by simp_all
  have "2 * u * q \<le> 2 * u * 1" using q u by (intro mult_left_mono) simp_all
  with a1(3) have d1: "\<bar>p1 - q\<bar> \<le> 2 * u" by simp
  have "q * q \<le> 1 * 1" using q by (intro mult_mono) simp_all
  then have "2 * u * (q * q) \<le> 2 * u * 1" using u by (intro mult_left_mono) simp_all
  with a2(3) have d2: "\<bar>p2 - q * q\<bar> \<le> 2 * u" by simp
  have "q * q - p1 * p1 = (q - p1) * (q + p1)" by (simp add: algebra_simps)
  then have "\<bar>q * q - p1 * p1\<bar> = \<bar>p1 - q\<bar> * \<bar>q + p1\<bar>"
    by (simp add: abs_mult abs_minus_commute)
  also have "\<dots> \<le> 2 * u * 2"
    using d1 q a1 by (intro mult_mono) simp_all
  finally have "\<bar>p2 - p1 * p1\<bar> \<le> 6 * u" using d2 by linarith
  with a1 a2 show ?thesis by (simp add: u_def)
qed


text \<open>One update against two, for any two decays related in this way.\<close>

lemma two_step_core:
  assumes "0 \<le> p1" "p1 \<le> 1" "0 \<le> p2" "p2 \<le> 1"
    and pp: "\<bar>p2 - p1 * p1\<bar> \<le> 6 * unit_roundoff"
    and eps: "0 < eps" and t: "rd t = t"
  shows "\<bar>snap_double eps t (mix_double c t p2) - snap_double eps t (mix_double (snap_double eps t (mix_double c t p1)) t p1)\<bar>
       < eps * (1 + 2 * unit_roundoff) + 64 * unit_roundoff * (\<bar>c\<bar> + \<bar>t\<bar>)"
proof -
  define u where "u = unit_roundoff"
  define W where "W = \<bar>c\<bar> + \<bar>t\<bar>"
  define d where "d = t - c"
  define r1 where "r1 = mix_double c t p1"
  define r2 where "r2 = mix_double c t p2"
  define E where "E = u * (\<bar>c\<bar> + 6 * \<bar>d\<bar>)"
  define B where "B = eps * (1 + 2 * u)"
  have u: "0 < u" "u \<le> 1 / 64"
    using unit_roundoff_pos unit_roundoff_small by (simp_all add: u_def)
  have W: "0 \<le> W" "\<bar>d\<bar> \<le> W" "\<bar>c\<bar> \<le> W" "\<bar>t\<bar> \<le> W"
    by (simp_all add: W_def d_def)
  have uW: "0 \<le> u * W" using u W by simp
  have B: "0 < B" unfolding B_def using eps u by (intro mult_pos_pos) simp_all
  have "\<bar>c\<bar> + 6 * \<bar>d\<bar> \<le> 7 * W" using W by linarith
  then have "E \<le> u * (7 * W)" unfolding E_def using u by (intro mult_left_mono) simp_all
  then have E: "E \<le> 7 * (u * W)" by simp
  have "u * W \<le> 1 / 64 * W" using u W by (intro mult_right_mono) simp_all
  then have uW_small: "64 * (u * W) \<le> W" by simp
  have A1: "\<bar>r1 - (t - d * p1)\<bar> \<le> E"
    unfolding r1_def E_def u_def d_def by (rule mix_double_err) fact+
  have A2: "\<bar>r2 - (t - d * p2)\<bar> \<le> E"
    unfolding r2_def E_def u_def d_def by (rule mix_double_err) fact+
  have "\<bar>d * p2 - d * (p1 * p1)\<bar> = \<bar>d\<bar> * \<bar>p2 - p1 * p1\<bar>"
    by (simp add: abs_mult [symmetric] algebra_simps)
  also have "\<dots> \<le> W * (6 * u)"
    using W pp by (intro mult_mono) (simp_all add: u_def)
  finally have dp: "\<bar>d * p2 - d * (p1 * p1)\<bar> \<le> 6 * (u * W)" by (simp add: mult.commute)
  have "p1 * p1 \<le> p1 * 1" using assms(1,2) by (intro mult_left_mono) simp_all
  then have "\<bar>d\<bar> * (p1 * p1) \<le> \<bar>d\<bar> * p1" by (intro mult_left_mono) simp_all
  then have sq: "\<bar>d * (p1 * p1)\<bar> \<le> \<bar>d * p1\<bar>"
    using assms(1) by (simp add: abs_mult)
  have "\<bar>d\<bar> * p1 \<le> \<bar>d\<bar> * 1" using assms(2) by (intro mult_left_mono) simp_all
  then have dp1: "\<bar>d * p1\<bar> \<le> W" using W assms(1) by (simp add: abs_mult)
  show ?thesis
    unfolding r1_def [symmetric] r2_def [symmetric] u_def [symmetric] W_def [symmetric] B_def [symmetric]
    using snap_double_cases [of eps t r1]
  proof
    assume y: "snap_double eps t r1 = t \<and> \<bar>t - r1\<bar> < eps * (1 + 2 * unit_roundoff)"
    then have close1: "\<bar>t - r1\<bar> < B" by (simp add: B_def u_def)
    have two: "snap_double eps t (mix_double t t p1) = t"
      using eps by (simp add: snap_double_def mix_double_same t rd_0)
    from A2 dp sq A1 close1 E have "\<bar>t - r2\<bar> < B + 20 * (u * W)" by linarith
    with snap_double_cases [of eps t r2] B uW
    have "\<bar>snap_double eps t r2 - t\<bar> < B + 64 * (u * W)" by (auto simp: abs_minus_commute)
    with y two show "\<bar>snap_double eps t r2 - snap_double eps t (mix_double (snap_double eps t r1) t p1)\<bar> < B + 64 * u * W"
      by simp
  next
    assume y: "snap_double eps t r1 = r1"
    define r3 where "r3 = mix_double r1 t p1"
    have t_r1: "\<bar>t - r1\<bar> \<le> 2 * W"
      using A1 dp1 E uW_small uW by linarith
    have "\<bar>t - (t - r1)\<bar> \<le> \<bar>t\<bar> + \<bar>t - r1\<bar>" by (rule abs_triangle_ineq4)
    then have "\<bar>r1\<bar> \<le> \<bar>t\<bar> + \<bar>t - r1\<bar>" by simp
    moreover define a n m where "a = \<bar>t - r1\<bar>" and "n = \<bar>r1\<bar>" and "m = \<bar>t\<bar>"
    ultimately have "n + 6 * a \<le> 15 * W"
      using t_r1 W(4) by simp
    then have "\<bar>r1\<bar> + 6 * \<bar>t - r1\<bar> \<le> 15 * W" by (simp add: a_def n_def)
    then have "u * (\<bar>r1\<bar> + 6 * \<bar>t - r1\<bar>) \<le> u * (15 * W)"
      using u by (intro mult_left_mono) simp_all
    moreover have "\<bar>r3 - (t - (t - r1) * p1)\<bar> \<le> u * (\<bar>r1\<bar> + 6 * \<bar>t - r1\<bar>)"
      unfolding r3_def u_def by (rule mix_double_err) fact+
    ultimately have A3: "\<bar>r3 - (t - (t - r1) * p1)\<bar> \<le> 15 * (u * W)" by simp
    have "(t - r1) * p1 - d * (p1 * p1) = ((t - r1) - d * p1) * p1" by (simp add: algebra_simps)
    then have "\<bar>(t - r1) * p1 - d * (p1 * p1)\<bar> = \<bar>(t - r1) - d * p1\<bar> * p1"
      using assms(1) by (simp add: abs_mult)
    also have "\<dots> \<le> E * 1"
      using A1 assms(1,2) by (intro mult_mono) (simp_all add: algebra_simps abs_minus_commute)
    finally have prod: "\<bar>(t - r1) * p1 - d * (p1 * p1)\<bar> \<le> E" by simp
    from A3 prod dp A2 E have near: "\<bar>r3 - r2\<bar> \<le> 35 * (u * W)" by linarith
    have "\<bar>snap_double eps t r2 - snap_double eps t r3\<bar> < B + 64 * (u * W)"
      using snap_double_cases [of eps t r2] snap_double_cases [of eps t r3] near B uW
      by (auto simp: B_def u_def)
    with y show "\<bar>snap_double eps t r2 - snap_double eps t (mix_double (snap_double eps t r1) t p1)\<bar> < B + 64 * u * W"
      by (simp add: r3_def)
  qed
qed



text \<open>
  The run at the edge of the snap test, one rounded operation after the other: the values
  of the three inputs, then the three calls.
\<close>

lemma lerp_double_steps:
  assumes "rd (dt * TARGET_FPS) = e" and "rd (1 - f) = b" and "pw b e = p" and "rd (1 - p) = k"
    and "rd (t - c) = g" and "rd (g * k) = m" and "rd (c + m) = r" and "rd (t - r) = z"
  shows "lerp_double pw c t f dt = (if \<bar>z\<bar> < 5 / 10 then t else r)"
  unfolding lerp_double_def Let_def by (simp only: assms)

lemma edge_values:
  "edge_target = 6010076841826229 / 562949953421312"
  "rd CANVAS_LERP = 1261007895663739 / 9007199254740992"
  "rd (1 / 60) = 4803839602528529 / 288230376151711744"
  using rd_value [of "1067604110329908 / 100000000000000" 49 6010076841826229]
    rd_value [of "14 / 100" 55 5044031582654956] rd_value [of "1 / 60" 58 4803839602528529]
  by (simp_all add: edge_target_def CANVAS_LERP_def)

lemma edge_one_step:
  "lerp_double Math_pow_nearest 10 edge_target (rd CANVAS_LERP) (2 * rd (1 / 60)) = edge_target"
proof -
  have e: "rd (2 * (4803839602528529 / 288230376151711744) * TARGET_FPS) = 2"
    using rd_value [of "2 * (4803839602528529 / 288230376151711744) * TARGET_FPS" 52 9007199254740992] by (simp add: TARGET_FPS_def)
  have b: "rd (1 - (1261007895663739 / 9007199254740992)) = 7746191359077253 / 9007199254740992"
    using rd_value [of "1 - (1261007895663739 / 9007199254740992)" 53 7746191359077253] by simp
  have p: "Math_pow_nearest (7746191359077253 / 9007199254740992) 2 = 6661724568806437 / 9007199254740992"
    using rd_value [of "(7746191359077253 / 9007199254740992) powr 2" 53 6661724568806437] by (simp add: Math_pow_nearest_def power2_eq_square)
  have k: "rd (1 - (6661724568806437 / 9007199254740992)) = 2345474685934555 / 9007199254740992"
    using rd_value [of "1 - (6661724568806437 / 9007199254740992)" 54 4690949371869110] by simp
  have g: "rd ((6010076841826229 / 562949953421312) - 10) = 380577307613109 / 562949953421312"
    using rd_value [of "(6010076841826229 / 562949953421312) - 10" 53 6089236921809744] by simp
  have m: "rd ((380577307613109 / 562949953421312) * (2345474685934555 / 9007199254740992)) = 6342549177757031 / 36028797018963968"
    using rd_value [of "(380577307613109 / 562949953421312) * (2345474685934555 / 9007199254740992)" 55 6342549177757031] by simp
  have r: "rd (10 + (6342549177757031 / 36028797018963968)) = 2864300932557787 / 281474976710656"
    using rd_value [of "10 + (6342549177757031 / 36028797018963968)" 49 5728601865115574] by simp
  have z: "rd ((6010076841826229 / 562949953421312) - (2864300932557787 / 281474976710656)) = 281474976710655 / 562949953421312"
    using rd_value [of "(6010076841826229 / 562949953421312) - (2864300932557787 / 281474976710656)" 54 9007199254740960] by simp
  have "lerp_double Math_pow_nearest 10 (6010076841826229 / 562949953421312) (1261007895663739 / 9007199254740992) (2 * (4803839602528529 / 288230376151711744)) = 6010076841826229 / 562949953421312"
    by (rule trans [OF lerp_double_steps [where pw = Math_pow_nearest, OF e b p k g m r z]]) simp
  then show ?thesis by (simp add: edge_values)
qed

lemma edge_first_step:
  "lerp_double Math_pow_nearest 10 edge_target (rd CANVAS_LERP) (rd (1 / 60)) = 5682780357278955 / 562949953421312"
proof -
  have e: "rd ((4803839602528529 / 288230376151711744) * TARGET_FPS) = 1"
    using rd_value [of "(4803839602528529 / 288230376151711744) * TARGET_FPS" 53 9007199254740992] by (simp add: TARGET_FPS_def)
  have b: "rd (1 - (1261007895663739 / 9007199254740992)) = 7746191359077253 / 9007199254740992"
    using rd_value [of "1 - (1261007895663739 / 9007199254740992)" 53 7746191359077253] by simp
  have p: "Math_pow_nearest (7746191359077253 / 9007199254740992) 1 = 7746191359077253 / 9007199254740992"
    using rd_value [of "(7746191359077253 / 9007199254740992) powr 1" 53 7746191359077253] by (simp add: Math_pow_nearest_def power2_eq_square)
  have k: "rd (1 - (7746191359077253 / 9007199254740992)) = 1261007895663739 / 9007199254740992"
    using rd_value [of "1 - (7746191359077253 / 9007199254740992)" 55 5044031582654956] by simp
  have g: "rd ((6010076841826229 / 562949953421312) - 10) = 380577307613109 / 562949953421312"
    using rd_value [of "(6010076841826229 / 562949953421312) - 10" 53 6089236921809744] by simp
  have m: "rd ((380577307613109 / 562949953421312) * (1261007895663739 / 9007199254740992)) = 3409972676213457 / 36028797018963968"
    using rd_value [of "(380577307613109 / 562949953421312) * (1261007895663739 / 9007199254740992)" 56 6819945352426914] by simp
  have r: "rd (10 + (3409972676213457 / 36028797018963968)) = 5682780357278955 / 562949953421312"
    using rd_value [of "10 + (3409972676213457 / 36028797018963968)" 49 5682780357278955] by simp
  have z: "rd ((6010076841826229 / 562949953421312) - (5682780357278955 / 562949953421312)) = 163648242273637 / 281474976710656"
    using rd_value [of "(6010076841826229 / 562949953421312) - (5682780357278955 / 562949953421312)" 53 5236743752756384] by simp
  have "lerp_double Math_pow_nearest 10 (6010076841826229 / 562949953421312) (1261007895663739 / 9007199254740992) ((4803839602528529 / 288230376151711744)) = 5682780357278955 / 562949953421312"
    by (rule trans [OF lerp_double_steps [where pw = Math_pow_nearest, OF e b p k g m r z]]) simp
  then show ?thesis by (simp add: edge_values)
qed

lemma edge_second_step:
  "lerp_double Math_pow_nearest (5682780357278955 / 562949953421312) edge_target (rd CANVAS_LERP) (rd (1 / 60)) = edge_target - 1 / 2"
proof -
  have e: "rd ((4803839602528529 / 288230376151711744) * TARGET_FPS) = 1"
    using rd_value [of "(4803839602528529 / 288230376151711744) * TARGET_FPS" 53 9007199254740992] by (simp add: TARGET_FPS_def)
  have b: "rd (1 - (1261007895663739 / 9007199254740992)) = 7746191359077253 / 9007199254740992"
    using rd_value [of "1 - (1261007895663739 / 9007199254740992)" 53 7746191359077253] by simp
  have p: "Math_pow_nearest (7746191359077253 / 9007199254740992) 1 = 7746191359077253 / 9007199254740992"
    using rd_value [of "(7746191359077253 / 9007199254740992) powr 1" 53 7746191359077253] by (simp add: Math_pow_nearest_def power2_eq_square)
  have k: "rd (1 - (7746191359077253 / 9007199254740992)) = 1261007895663739 / 9007199254740992"
    using rd_value [of "1 - (7746191359077253 / 9007199254740992)" 55 5044031582654956] by simp
  have g: "rd ((6010076841826229 / 562949953421312) - (5682780357278955 / 562949953421312)) = 163648242273637 / 281474976710656"
    using rd_value [of "(6010076841826229 / 562949953421312) - (5682780357278955 / 562949953421312)" 53 5236743752756384] by simp
  have m: "rd ((163648242273637 / 281474976710656) * (1261007895663739 / 9007199254740992)) = 5865153003087151 / 72057594037927936"
    using rd_value [of "(163648242273637 / 281474976710656) * (1261007895663739 / 9007199254740992)" 56 5865153003087151] by simp
  have r: "rd ((5682780357278955 / 562949953421312) + (5865153003087151 / 72057594037927936)) = 5728601865115573 / 562949953421312"
    using rd_value [of "(5682780357278955 / 562949953421312) + (5865153003087151 / 72057594037927936)" 49 5728601865115573] by simp
  have z: "rd ((6010076841826229 / 562949953421312) - (5728601865115573 / 562949953421312)) = 1 / 2"
    using rd_value [of "(6010076841826229 / 562949953421312) - (5728601865115573 / 562949953421312)" 53 4503599627370496] by simp
  have "lerp_double Math_pow_nearest (5682780357278955 / 562949953421312) (6010076841826229 / 562949953421312) (1261007895663739 / 9007199254740992) ((4803839602528529 / 288230376151711744)) = 5728601865115573 / 562949953421312"
    by (rule trans [OF lerp_double_steps [where pw = Math_pow_nearest, OF e b p k g m r z]]) simp
  then show ?thesis by (simp add: edge_values)
qed


text \<open>Each double lerp is a snap test on a rounded update.\<close>

lemma lerp_double_shape:
  "lerp_double pw c t f dt
     = snap_double (5 / 10) t (mix_double c t (pw (rd (1 - f)) (rd (dt * TARGET_FPS))))"
  by (simp add: lerp_double_def snap_double_def mix_double_def Let_def)

lemma lerp_part000_double_shape:
  "lerp_part000_double pw c t f dt
     = snap_double (rd (5 / 10000)) t (mix_double c t (pw (rd (1 - f)) (rd (dt * TARGET_FPS))))"
  by (simp add: lerp_part000_double_def snap_double_def mix_double_def Let_def)

lemma lerp_script_double_shape:
  "lerp_script_double pw c t f dt
     = snap_double (rd (1 / 1000)) t (mix_double c t (pw (rd (1 - f)) (rd (dt * TARGET_FPS))))"
  by (simp add: lerp_script_double_def snap_double_def mix_double_def Let_def)

lemma lerp_double_variants:
  assumes "(L = lerp_double \<and> eps = 5 / 10) \<or> (L = lerp_part000_double \<and> eps = rd (5 / 10000))
     \<or> (L = lerp_script_double \<and> eps = rd (1 / 1000))"
  shows "0 < eps \<and> (\<forall>pw c t f dt. L pw c t f dt
           = snap_double eps t (mix_double c t (pw (rd (1 - f)) (rd (dt * TARGET_FPS)))))"
  using assms
  by (elim disjE conjE; hypsubst)
    (simp_all only: lerp_double_shape lerp_part000_double_shape lerp_script_double_shape
      simp_thms, simp_all add: rd_pos)

lemma pow_nearest_accurate: "pow_accurate Math_pow_nearest"
  unfolding pow_accurate_def Math_pow_nearest_def
proof (intro allI impI)
  fix b e :: real
  assume be: "0 < b \<and> b \<le> 1 \<and> 0 < e"
  then have q: "0 < b powr e" "b powr e \<le> 1" by (simp_all add: powr_le1)
  have "unit_roundoff * \<bar>b powr e\<bar> \<le> 2 * unit_roundoff * b powr e"
    using q unit_roundoff_pos by simp
  with rd_err [of "b powr e"] q
  show "0 < rd (b powr e) \<and> rd (b powr e) \<le> 1
      \<and> \<bar>rd (b powr e) - b powr e\<bar> \<le> 2 * unit_roundoff * b powr e"
    by (simp add: rd_pos rd_le_1)
qed

text \<open>
  Claim C2 as stated fails in double arithmetic. With current 10, target 10.67604110329908,
  factor 0.14 and \<open>h = 1 / 60\<close>, one update with \<open>dt = 2 * h\<close> leaves a distance one unit in the
  last place below 0.5 and snaps to the target; the second of two updates with \<open>dt = h\<close>
  leaves a distance of exactly 0.5 and does not snap. The results are 10.67604110329908 and
  10.17604110329908: 0.5 apart, the whole snap distance.
\<close>

theorem lerp_double_snap_edge_counterexample:
  "lerp_double Math_pow_nearest 10 edge_target (rd CANVAS_LERP) (2 * rd (1 / 60)) = edge_target
   \<and> lerp_double Math_pow_nearest 10 edge_target (rd CANVAS_LERP) (rd (1 / 60))
       = rd (1009464575446187 / 100000000000000)
   \<and> lerp_double Math_pow_nearest
         (lerp_double Math_pow_nearest 10 edge_target (rd CANVAS_LERP) (rd (1 / 60)))
         edge_target (rd CANVAS_LERP) (rd (1 / 60))
       = rd (1017604110329908 / 100000000000000)
   \<and> rd (1017604110329908 / 100000000000000) = edge_target - 1 / 2"
proof -
  have a: "rd (1009464575446187 / 100000000000000) = 5682780357278955 / 562949953421312"
    using rd_value [of "1009464575446187 / 100000000000000" 49 5682780357278955] by simp
  have b: "rd (1017604110329908 / 100000000000000) = 5728601865115573 / 562949953421312"
    using rd_value [of "1017604110329908 / 100000000000000" 49 5728601865115573] by simp
  have c: "edge_target - 1 / 2 = 5728601865115573 / 562949953421312"
    by (simp add: edge_values)
  show ?thesis
    unfolding a b by (simp add: edge_one_step edge_first_step edge_second_step c)
qed

text \<open>
  Claim C2, amended (framerate independence up to the snap distance). For a target that is a
  double, a factor in \<open>(0, 1)\<close>, a step \<open>h > 0\<close> and a \<^verbatim>\<open>Math.pow\<close> accurate to one unit in the
  last place, the result of one update with \<open>dt = 2 * h\<close> and the result of two successive
  updates with \<open>dt = h\<close> differ by less than the snap distance of the variant (0.5, 0.0005,
  0.001), enlarged by the factor \<open>1 + 2 ^ - 52\<close>, plus \<open>2 ^ - 47 * (\<bar>c\<bar> + \<bar>t\<bar>)\<close> of rounding.
\<close>

theorem lerp_double_framerate_independent:
  assumes "(L = lerp_double \<and> eps = 5 / 10) \<or> (L = lerp_part000_double \<and> eps = rd (5 / 10000))
     \<or> (L = lerp_script_double \<and> eps = rd (1 / 1000))"
    and "pow_accurate pw" and "0 < f" and "f < 1" and "0 < h" and "rd t = t"
  shows "\<bar>L pw c t f (2 * h) - L pw (L pw c t f h) t f h\<bar>
       < eps * (1 + 2 * unit_roundoff) + 64 * unit_roundoff * (\<bar>c\<bar> + \<bar>t\<bar>)"
proof -
  from lerp_double_variants [OF assms(1)]
  have eps: "0 < eps"
    and L: "\<And>pw c t f dt. L pw c t f dt
           = snap_double eps t (mix_double c t (pw (rd (1 - f)) (rd (dt * TARGET_FPS))))"
    by blast+
  from double_decay_pair [OF assms(2-5)]
  have p: "0 \<le> pw (rd (1 - f)) (rd (h * TARGET_FPS))" "pw (rd (1 - f)) (rd (h * TARGET_FPS)) \<le> 1"
    "0 \<le> pw (rd (1 - f)) (rd (2 * h * TARGET_FPS))" "pw (rd (1 - f)) (rd (2 * h * TARGET_FPS)) \<le> 1"
    "\<bar>pw (rd (1 - f)) (rd (2 * h * TARGET_FPS))
       - pw (rd (1 - f)) (rd (h * TARGET_FPS)) * pw (rd (1 - f)) (rd (h * TARGET_FPS))\<bar>
     \<le> 6 * unit_roundoff"
    by blast+
  show ?thesis
    unfolding L by (rule two_step_core [OF p eps assms(6)])
qed

theorem lerp_double_framerate_independent_witness:
  "pow_accurate Math_pow_nearest \<and> 0 < rd CANVAS_LERP \<and> rd CANVAS_LERP < 1 \<and> 0 < rd (1 / 60)
   \<and> rd edge_target = edge_target
   \<and> \<bar>lerp_double Math_pow_nearest 10 edge_target (rd CANVAS_LERP) (2 * rd (1 / 60))
        - lerp_double Math_pow_nearest
            (lerp_double Math_pow_nearest 10 edge_target (rd CANVAS_LERP) (rd (1 / 60)))
            edge_target (rd CANVAS_LERP) (rd (1 / 60))\<bar>
       < 5 / 10 * (1 + 2 * unit_roundoff) + 64 * unit_roundoff * (\<bar>10\<bar> + \<bar>edge_target\<bar>)
   \<and> \<bar>lerp_double Math_pow_nearest 10 edge_target (rd CANVAS_LERP) (2 * rd (1 / 60))
        - lerp_double Math_pow_nearest
            (lerp_double Math_pow_nearest 10 edge_target (rd CANVAS_LERP) (rd (1 / 60)))
            edge_target (rd CANVAS_LERP) (rd (1 / 60))\<bar>
       = 1 / 2"
proof -
  have f: "0 < rd CANVAS_LERP" "rd CANVAS_LERP < 1" and h: "0 < rd (1 / 60)"
    by (simp_all add: edge_values)
  have t: "rd edge_target = edge_target"
    unfolding edge_values
    using rd_value [of "6010076841826229 / 562949953421312" 49 6010076841826229] by simp
  have d: "\<bar>lerp_double Math_pow_nearest 10 edge_target (rd CANVAS_LERP) (2 * rd (1 / 60))
        - lerp_double Math_pow_nearest
            (lerp_double Math_pow_nearest 10 edge_target (rd CANVAS_LERP) (rd (1 / 60)))
            edge_target (rd CANVAS_LERP) (rd (1 / 60))\<bar> = 1 / 2"
    by (simp add: edge_one_step edge_first_step edge_second_step)
  have v: "(lerp_double = lerp_double \<and> (5 / 10 :: real) = 5 / 10)
      \<or> (lerp_double = lerp_part000_double \<and> (5 / 10 :: real) = rd (5 / 10000))
      \<or> (lerp_double = lerp_script_double \<and> (5 / 10 :: real) = rd (1 / 1000))"
    by simp
  note b = lerp_double_framerate_independent [OF v pow_nearest_accurate f h t, of 10]
  show ?thesis
    by (intro conjI pow_nearest_accurate f h t b d)
qed

section \<open>Properties of the scroll handler\<close>

lemma Math_round_mono: "x \<le> y \<Longrightarrow> Math_round x \<le> Math_round y"
  by (simp add: Math_round_def floor_mono)

lemma Math_round_of_int: "Math_round (real_of_int k) = k"
  by (simp add: Math_round_def)

lemma onScroll_script_progress:
  "targetScrollProgress (onScroll_script win s) =
     (if scrollHeight win - innerHeight win > 0
      then min (max (scrollY win / (scrollHeight win - innerHeight win)) 0) 1 else 0)"
  by (simp add: onScroll_script_def Let_def)

lemma onScroll_script_frame:
  "targetFrame (onScroll_script win s) =
     min (Math_round (targetScrollProgress (onScroll_script win s) * real_of_int (FRAME_COUNT - 1)))
         (FRAME_COUNT - 1)"
  by (simp add: onScroll_script_def Let_def)

lemma onScroll_script_in_range:
  "0 \<le> targetFrame (onScroll_script win s) \<and> targetFrame (onScroll_script win s) \<le> FRAME_COUNT - 1"
proof -
  let ?p = "targetScrollProgress (onScroll_script win s)"
  have "0 \<le> ?p" by (simp add: onScroll_script_progress)
  then have "0 \<le> ?p * real_of_int (FRAME_COUNT - 1)" by (simp add: FRAME_COUNT_def)
  from Math_round_mono [OF this] have "0 \<le> Math_round (?p * real_of_int (FRAME_COUNT - 1))"
    using Math_round_of_int [of 0] by simp
  then show ?thesis by (simp add: onScroll_script_frame FRAME_COUNT_def)
qed

lemma onScroll_progress:
  "targetScrollProgress (onScroll win s) =
     (if scrollHeight win - innerHeight win > 0
      then min (scrollY win / (scrollHeight win - innerHeight win)) 1 else 0)"
  by (simp add: onScroll_def Let_def)

lemma onScroll_frame:
  "targetFrame (onScroll win s) =
     min (Math_round (targetScrollProgress (onScroll win s) * real_of_int (FRAME_COUNT - 1)))
         (FRAME_COUNT - 1)"
  by (simp add: onScroll_def Let_def)

lemma onScroll_nonneg_in_range:
  assumes "0 \<le> scrollY win"
  shows "0 \<le> targetFrame (onScroll win s) \<and> targetFrame (onScroll win s) \<le> FRAME_COUNT - 1"
proof -
  let ?p = "targetScrollProgress (onScroll win s)"
  have "0 \<le> ?p" using assms by (simp add: onScroll_progress)
  then have "0 \<le> ?p * real_of_int (FRAME_COUNT - 1)" by (simp add: FRAME_COUNT_def)
  from Math_round_mono [OF this] have "0 \<le> Math_round (?p * real_of_int (FRAME_COUNT - 1))"
    using Math_round_of_int [of 0] by simp
  then show ?thesis by (simp add: onScroll_frame FRAME_COUNT_def)
qed

text \<open>
  Claim C1 (scroll-to-frame mapping). The claim asks for a progress clamped to \<open>[0, 1]\<close> and a
  target frame in \<open>[0, FRAME_COUNT - 1]\<close> for every offset, negative ones included, and every
  extent \<open>M > 0\<close>. The handler of \<^verbatim>\<open>script.js\<close> does that (\<open>onScroll_script_in_range\<close>), and so
  does the handler of the two later files for offsets that are not negative
  (\<open>onScroll_nonneg_in_range\<close>); but the later handler lost the lower clamp, and at offset -100
  of extent 1000 it stores the progress -0.1 and the target frame -15.
\<close>

theorem onScroll_negative_offset:
  "scrollY negative_scroll = - 100
   \<and> scrollHeight negative_scroll - innerHeight negative_scroll = 1000
   \<and> targetScrollProgress (onScroll negative_scroll initial) = - 1 / 10
   \<and> targetFrame (onScroll negative_scroll initial) = - 15
   \<and> targetScrollProgress (onScroll_script negative_scroll initial) = 0
   \<and> targetFrame (onScroll_script negative_scroll initial) = 0"
  by (simp add: onScroll_def onScroll_script_def negative_scroll_def desktop_def Let_def
      FRAME_COUNT_def Math_round_def)

section \<open>Properties of the animation tick\<close>

lemma animate_dt_cases:
  "animate_dt ts s = (if ts = lastTime s then 16 / 1000 else min ((ts - lastTime s) / 1000) (1 / 10))"
  by (simp add: animate_dt_def Let_def min_def)

text \<open>
  Claim C9 as stated fails: on the first tick \<open>lastTime\<close> is the number 0, not a missing value,
  so a first timestamp of 1000 ms gives \<open>dt = 0.1\<close>; and the fallback, taken only when the
  clamped delta is zero, is 0.016, not 1/60.
\<close>

theorem animate_dt_first_tick_counterexample:
  "lastTime initial = 0
   \<and> animate_dt 1000 initial = 1 / 10
   \<and> animate_dt 1000 initial \<noteq> 1 / 60
   \<and> animate_dt 0 initial = 16 / 1000
   \<and> animate_dt 0 initial \<noteq> 1 / 60"
  by (simp add: animate_dt_cases initial_def)

text \<open>
  Claim C9, amended. The \<open>dt\<close> of a tick is the timestamp delta in seconds clamped from above
  by 0.1, with the value 0.016 in place of a delta of zero; it is at most 0.1, and positive
  whenever the timestamp is not before \<open>lastTime\<close>. On the first tick \<open>lastTime\<close> is 0, so \<open>dt\<close>
  is \<open>min (timestamp / 1000) 0.1\<close> unless the timestamp is 0. The tick stores the timestamp in
  \<open>lastTime\<close> and smooths the scroll offset, the progress and the frame position with this \<open>dt\<close>.
\<close>

theorem animate_dt_clamped:
  "animate_dt ts s = (if ts = lastTime s then 16 / 1000 else min ((ts - lastTime s) / 1000) (1 / 10))
   \<and> animate_dt ts s \<le> 1 / 10
   \<and> (lastTime s \<le> ts \<longrightarrow> 0 < animate_dt ts s)
   \<and> animate_dt ts initial = (if ts = 0 then 16 / 1000 else min (ts / 1000) (1 / 10))
   \<and> lastTime (animate ts s) = ts
   \<and> smoothScrollY (animate ts s) = lerp (smoothScrollY s) (targetScrollY s) LERP_FACTOR (animate_dt ts s)
   \<and> smoothScrollProgress (animate ts s)
       = lerp (smoothScrollProgress s) (targetScrollProgress s) CANVAS_LERP (animate_dt ts s)
   \<and> currentFrame (animate ts s)
       = lerp (if currentFrame s < 0 then real_of_int (targetFrame s) else currentFrame s)
           (real_of_int (targetFrame s)) CANVAS_LERP (animate_dt ts s)"
proof -
  have 1: "animate_dt ts s \<le> 1 / 10" by (simp add: animate_dt_cases min_def)
  have 2: "lastTime s \<le> ts \<longrightarrow> 0 < animate_dt ts s" by (simp add: animate_dt_cases min_def)
  have 3: "animate_dt ts initial = (if ts = 0 then 16 / 1000 else min (ts / 1000) (1 / 10))"
    by (simp add: animate_dt_cases initial_def)
  have 4: "lastTime (animate ts s) = ts"
    by (simp add: animate_def Let_def blitBuffer_def drawFrameToBuffer_def
        split: option.split prod.split)
  have 5: "smoothScrollY (animate ts s) = lerp (smoothScrollY s) (targetScrollY s) LERP_FACTOR (animate_dt ts s)"
    by (simp add: animate_def Let_def blitBuffer_def drawFrameToBuffer_def
        split: option.split prod.split)
  have 6: "smoothScrollProgress (animate ts s)
       = lerp (smoothScrollProgress s) (targetScrollProgress s) CANVAS_LERP (animate_dt ts s)"
    by (simp add: animate_def Let_def blitBuffer_def drawFrameToBuffer_def
        split: option.split prod.split)
  have 7: "currentFrame (animate ts s) = animate_sf ts s"
    by (simp add: animate_def Let_def blitBuffer_def drawFrameToBuffer_def
        split: option.split prod.split)
  show ?thesis
    using 1 2 3 4 5 6 7 animate_dt_cases [of ts s] by (simp only: animate_sf_def simp_thms)
qed

theorem animate_dt_clamped_witness:
  "animate_dt 1016 (animate 1000 initial) = 16 / 1000
   \<and> lastTime (animate 1000 initial) \<le> 1016
   \<and> 0 < animate_dt 1016 (animate 1000 initial)
   \<and> animate_dt 6000 (animate 1000 initial) = 1 / 10
   \<and> animate_dt 1000 (animate 1000 initial) = 16 / 1000"
proof -
  have l: "lastTime (animate 1000 initial) = 1000"
    using animate_dt_clamped [of 1000 initial] by simp
  have p: "lastTime (animate 1000 initial) \<le> 1016 \<longrightarrow> 0 < animate_dt 1016 (animate 1000 initial)"
    using animate_dt_clamped [of 1016 "animate 1000 initial"] by blast
  have e: "animate_dt t (animate 1000 initial)
       = (if t = 1000 then 16 / 1000 else min ((t - 1000) / 1000) (1 / 10))" for t
    using animate_dt_clamped [of t "animate 1000 initial"] l by simp
  show ?thesis using l p e by simp
qed

section \<open>Properties of the frame store\<close>

lemma status_ge_1: "(1 \<le> (v::8 word)) = (v \<noteq> 0)"
  by (simp add: word_le_nat_alt unat_eq_0 Suc_le_eq unat_gt_0)

text \<open>
  Claim C8 (idempotent load trigger). \<^verbatim>\<open>loadFrame\<close> on a frame whose status is Loading (1) or
  Ready (2) returns the engine as it was: the status array, the images, the loaded count and
  the pending set are unchanged, and the trace has no new request.
\<close>

theorem loadFrame_idempotent:
  assumes "status s index = Some 1 \<or> status s index = Some 2"
  shows "loadFrame index s = s"
  using assms by (auto simp: loadFrame_def status_def)

lemma initial_status: "in_range i \<Longrightarrow> status initial i = Some 0"
proof -
  assume "in_range i"
  then have "nat i < 150" unfolding in_range_def FRAME_COUNT_def by arith
  then have "replicate 150 (0::8 word) ! nat i = 0" by (rule nth_replicate)
  with \<open>in_range i\<close> show ?thesis
    by (simp add: status_def Uint8_get_def initial_def in_range_def FRAME_COUNT_def)
qed

theorem loadFrame_idempotent_witness:
  "status (loadFrame 7 initial) 7 = Some 1
   \<and> loadFrame 7 (loadFrame 7 initial) = loadFrame 7 initial
   \<and> trace (loadFrame 7 (loadFrame 7 initial)) = [Request 7]
   \<and> status (img_onload desktop 7 1920 1080 (loadFrame 7 initial)) 7 = Some 2
   \<and> loadFrame 7 (img_onload desktop 7 1920 1080 (loadFrame 7 initial))
       = img_onload desktop 7 1920 1080 (loadFrame 7 initial)"
proof -
  have len: "length (frameStatus initial) = 150"
    by (simp add: initial_def FRAME_COUNT_def)
  have a: "status (loadFrame 7 initial) 7 = Some 1"
    using len by (simp add: loadFrame_def status_def Uint8_get_def Uint8_set_def initial_def FRAME_COUNT_def)
  have t: "trace (loadFrame 7 initial) = [Request 7]"
    using len by (simp add: loadFrame_def status_def Uint8_get_def Uint8_set_def initial_def FRAME_COUNT_def)
  have b: "status (img_onload desktop 7 1920 1080 (loadFrame 7 initial)) 7 = Some 2"
    using len by (simp add: img_onload_def onFrameReady_def updatePreloader_def blitBuffer_def
        drawFrameToBuffer_def resizeCanvas_def Let_def loadFrame_def status_def Uint8_get_def
        Uint8_set_def initial_def FRAME_COUNT_def split: option.split prod.split)
  show ?thesis
    using loadFrame_idempotent [of "loadFrame 7 initial" 7]
      loadFrame_idempotent [of "img_onload desktop 7 1920 1080 (loadFrame 7 initial)" 7] a b t
    by simp
qed

lemma Uint8_set_length: "length (Uint8_set a i v) = length a"
  by (simp add: Uint8_set_def)

lemma Uint8_get_set:
  "Uint8_get (Uint8_set a i v) j =
     (if j = i \<and> 0 \<le> i \<and> i < int (length a) then Some v else Uint8_get a j)"
  by (auto simp: Uint8_get_def Uint8_set_def)

lemma Uint8_get_Some_iff: "(\<exists>v. Uint8_get a i = Some v) \<longleftrightarrow> 0 \<le> i \<and> i < int (length a)"
  by (simp add: Uint8_get_def)

lemma status_in_range:
  "length (frameStatus s) = nat FRAME_COUNT \<Longrightarrow> in_range i \<longleftrightarrow> (\<exists>v. status s i = Some v)"
  by (auto simp: status_def Uint8_get_def in_range_def FRAME_COUNT_def)

text \<open>What \<^verbatim>\<open>loadFrame\<close> does, field by field.\<close>

lemma loadFrame_cases:
  "loadFrame j s =
     (if \<exists>v. status s j = Some v \<and> v \<noteq> 0 then s
      else s\<lparr> frameStatus := Uint8_set (frameStatus s) j 1,
               pending := add_mset j (pending s),
               trace := trace s @ [Request j] \<rparr>)"
  by (auto simp: loadFrame_def status_def status_ge_1 split: option.splits)

lemma loadFrame_frames: "frames (loadFrame j s) = frames s"
  by (simp add: loadFrame_cases)

lemma loadFrame_length: "length (frameStatus (loadFrame j s)) = length (frameStatus s)"
  by (simp add: loadFrame_cases Uint8_set_length)

lemma loadFrame_status:
  "status (loadFrame j s) i = (if i = j \<and> status s j = Some 0 then Some 1 else status s i)"
proof (cases "\<exists>v. status s j = Some v \<and> v \<noteq> 0")
  case True
  then show ?thesis by (auto simp: loadFrame_cases)
next
  case False
  then have "status s j = Some 0 \<longleftrightarrow> 0 \<le> j \<and> j < int (length (frameStatus s))"
    using Uint8_get_Some_iff [of "frameStatus s" j] by (auto simp: status_def)
  with False show ?thesis
    by (auto simp: loadFrame_cases status_def Uint8_get_set)
qed

lemma loadFrame_pending:
  "pending (loadFrame j s) =
     (if \<exists>v. status s j = Some v \<and> v \<noteq> 0 then pending s else add_mset j (pending s))"
  by (simp add: loadFrame_cases)

lemma loadFrame_trace:
  "trace (loadFrame j s) =
     (if \<exists>v. status s j = Some v \<and> v \<noteq> 0 then trace s else trace s @ [Request j])"
  by (simp add: loadFrame_cases)

lemma loadFrame_inv:
  assumes "store_inv s"
  shows "store_inv (loadFrame j s)"
proof -
  from assms have len: "length (frameStatus s) = nat FRAME_COUNT"
    by (simp add: store_inv_def)
  have "(frames (loadFrame j s) i \<noteq> None \<longleftrightarrow> status (loadFrame j s) i = Some 2)
      \<and> count (pending (loadFrame j s)) i = (if status (loadFrame j s) i = Some 1 then 1 else 0)"
    if i: "in_range i" for i
  proof -
    from assms i have a: "frames s i \<noteq> None \<longleftrightarrow> status s i = Some 2"
      and b: "count (pending s) i = (if status s i = Some 1 then 1 else 0)"
      by (simp_all add: store_inv_def)
    from i len obtain v where v: "status s i = Some v"
      using status_in_range by blast
    show ?thesis
      using a b v by (auto simp: loadFrame_frames loadFrame_status loadFrame_pending)
  qed
  with len show ?thesis
    by (simp add: store_inv_def loadFrame_length)
qed

text \<open>
  Outside the status array nothing records a request, so \<^verbatim>\<open>loadFrame\<close> requests again on
  every call: this is what \<^verbatim>\<open>proximityLoad\<close> does around a negative target frame.
\<close>

lemma loadFrame_outside:
  assumes "j < 0 \<or> int (length (frameStatus s)) \<le> j"
  shows "loadFrame j s = s\<lparr> pending := add_mset j (pending s), trace := trace s @ [Request j] \<rparr>"
proof -
  from assms have g: "Uint8_get (frameStatus s) j = None"
    by (auto simp: Uint8_get_def)
  from assms have u: "Uint8_set (frameStatus s) j 1 = frameStatus s"
    by (auto simp: Uint8_set_def)
  show ?thesis by (simp add: loadFrame_def g u)
qed

lemma loadFrame_negative_twice:
  "trace (loadFrame (- 15) (loadFrame (- 15) initial)) = [Request (- 15), Request (- 15)]"
proof -
  have 1: "loadFrame (- 15) initial
      = initial\<lparr> pending := add_mset (- 15) (pending initial),
                  trace := trace initial @ [Request (- 15)] \<rparr>"
    by (rule loadFrame_outside) simp
  have 2: "trace (loadFrame (- 15) (loadFrame (- 15) initial))
      = trace (loadFrame (- 15) initial) @ [Request (- 15)]"
    by (subst loadFrame_outside [of "- 15" "loadFrame (- 15) initial"]) simp_all
  show ?thesis unfolding 2 unfolding 1 by (simp add: initial_def)
qed

text \<open>The functions that leave the frame store alone.\<close>

lemma resizeCanvas_store:
  "frames (resizeCanvas win s) = frames s \<and> frameStatus (resizeCanvas win s) = frameStatus s
   \<and> pending (resizeCanvas win s) = pending s"
  by (simp add: resizeCanvas_def)

lemma syncBodyHeight_store:
  "frames (syncBodyHeight win s) = frames s \<and> frameStatus (syncBodyHeight win s) = frameStatus s
   \<and> pending (syncBodyHeight win s) = pending s"
  by (simp add: syncBodyHeight_def)

lemma drawFrameToBuffer_store:
  "frames (drawFrameToBuffer i s) = frames s \<and> frameStatus (drawFrameToBuffer i s) = frameStatus s
   \<and> pending (drawFrameToBuffer i s) = pending s"
  by (simp add: drawFrameToBuffer_def Let_def split: option.split prod.split)

lemma blitBuffer_store:
  "frames (blitBuffer s) = frames s \<and> frameStatus (blitBuffer s) = frameStatus s
   \<and> pending (blitBuffer s) = pending s"
  by (simp add: blitBuffer_def)

lemma onFrameReady_store:
  "frames (onFrameReady win i s) = frames s \<and> frameStatus (onFrameReady win i s) = frameStatus s
   \<and> pending (onFrameReady win i s) = pending s"
  by (simp add: onFrameReady_def updatePreloader_def Let_def blitBuffer_store
      drawFrameToBuffer_store resizeCanvas_store)

lemma onScroll_store:
  "frames (onScroll win s) = frames s \<and> frameStatus (onScroll win s) = frameStatus s
   \<and> pending (onScroll win s) = pending s"
  by (simp add: onScroll_def Let_def)

lemma onMouseMove_store:
  "frames (onMouseMove win x y s) = frames s \<and> frameStatus (onMouseMove win x y s) = frameStatus s
   \<and> pending (onMouseMove win x y s) = pending s"
  by (simp add: onMouseMove_def)

lemma onResize_store:
  "frames (onResize win s) = frames s \<and> frameStatus (onResize win s) = frameStatus s
   \<and> pending (onResize win s) = pending s"
  by (simp add: onResize_def Let_def blitBuffer_store drawFrameToBuffer_store
      syncBodyHeight_store resizeCanvas_store)

lemma animate_store:
  "frames (animate ts s) = frames s \<and> frameStatus (animate ts s) = frameStatus s
   \<and> pending (animate ts s) = pending s"
  by (simp add: animate_def Let_def blitBuffer_store drawFrameToBuffer_store)

text \<open>The two callbacks.\<close>

lemma img_onload_frames: "frames (img_onload win j w h s) = (frames s)(j \<mapsto> Image j w h)"
  by (simp add: img_onload_def onFrameReady_store)

lemma img_onload_status:
  "status (img_onload win j w h s) i = (if i = j \<and> status s j \<noteq> None then Some 2 else status s i)"
  using Uint8_get_Some_iff [of "frameStatus s" j]
  by (auto simp: img_onload_def onFrameReady_store status_def Uint8_get_set)

lemma img_onload_pending: "pending (img_onload win j w h s) = pending s - {#j#}"
  by (simp add: img_onload_def onFrameReady_store)

lemma img_onload_length: "length (frameStatus (img_onload win j w h s)) = length (frameStatus s)"
  by (simp add: img_onload_def onFrameReady_store Uint8_set_length)

lemma img_onerror_status:
  "status (img_onerror j s) i = (if i = j \<and> status s j \<noteq> None then Some 0 else status s i)"
  using Uint8_get_Some_iff [of "frameStatus s" j]
  by (auto simp: img_onerror_def status_def Uint8_get_set)

lemma img_onerror_rest:
  "frames (img_onerror j s) = frames s \<and> pending (img_onerror j s) = pending s - {#j#}
   \<and> framesLoadedCount (img_onerror j s) = framesLoadedCount s
   \<and> trace (img_onerror j s) = trace s
   \<and> length (frameStatus (img_onerror j s)) = length (frameStatus s)"
  by (simp add: img_onerror_def Uint8_set_length)

lemma pending_is_loading:
  assumes "store_inv s" and "in_range j" and "j \<in># pending s"
  shows "status s j = Some 1 \<and> frames s j = None \<and> count (pending s) j = 1"
proof -
  from assms(1,2) have a: "frames s j \<noteq> None \<longleftrightarrow> status s j = Some 2"
    and b: "count (pending s) j = (if status s j = Some 1 then 1 else 0)"
    by (simp_all add: store_inv_def)
  from assms(3) have "0 < count (pending s) j" by simp
  with b have "status s j = Some 1" by (simp split: if_splits)
  with a b show ?thesis by simp
qed

lemma img_onload_inv:
  assumes "store_inv s" and "j \<in># pending s"
  shows "store_inv (img_onload win j w h s)"
proof -
  from assms have len: "length (frameStatus s) = nat FRAME_COUNT"
    by (simp add: store_inv_def)
  have "(frames (img_onload win j w h s) i \<noteq> None \<longleftrightarrow> status (img_onload win j w h s) i = Some 2)
      \<and> count (pending (img_onload win j w h s)) i
          = (if status (img_onload win j w h s) i = Some 1 then 1 else 0)"
    if i: "in_range i" for i
  proof (cases "i = j")
    case True
    with i assms have "status s j = Some 1" "count (pending s) j = 1"
      using pending_is_loading by simp_all
    with True show ?thesis
      by (simp add: img_onload_frames img_onload_status img_onload_pending)
  next
    case False
    with assms(1) i show ?thesis
      by (simp add: img_onload_frames img_onload_status img_onload_pending store_inv_def)
  qed
  with len show ?thesis
    by (simp add: store_inv_def img_onload_length)
qed

lemma img_onerror_inv:
  assumes "store_inv s" and "j \<in># pending s"
  shows "store_inv (img_onerror j s)"
proof -
  from assms have len: "length (frameStatus s) = nat FRAME_COUNT"
    by (simp add: store_inv_def)
  have "(frames (img_onerror j s) i \<noteq> None \<longleftrightarrow> status (img_onerror j s) i = Some 2)
      \<and> count (pending (img_onerror j s)) i
          = (if status (img_onerror j s) i = Some 1 then 1 else 0)"
    if i: "in_range i" for i
  proof (cases "i = j")
    case True
    with i assms have "status s j = Some 1" "count (pending s) j = 1" "frames s j = None"
      using pending_is_loading by simp_all
    with True show ?thesis
      by (simp add: img_onerror_rest img_onerror_status)
  next
    case False
    with assms(1) i show ?thesis
      by (simp add: img_onerror_rest img_onerror_status store_inv_def)
  qed
  with len show ?thesis
    by (simp add: store_inv_def img_onerror_rest)
qed

text \<open>
  The loops of the preloader only call \<^verbatim>\<open>loadFrame\<close>: what every \<^verbatim>\<open>loadFrame\<close> keeps (and
  the timer flag does not touch), \<^verbatim>\<open>preloadFrames\<close> and \<^verbatim>\<open>proximityLoad\<close> keep.
\<close>

lemma fold_inv:
  assumes "\<And>x s. P s \<Longrightarrow> P (f x s)" and "P s"
  shows "P (fold f xs s)"
  using assms(2) by (induction xs arbitrary: s) (simp_all add: assms(1))

lemma trickle_preserves:
  assumes "\<And>j x. P x \<Longrightarrow> P (loadFrame j x)" and "P s"
  shows "P (trickle is loaded s)"
  using assms(2) by (induction "is" loaded s rule: trickle.induct) (simp_all add: assms(1))

lemma proximityLoad_preserves:
  assumes "\<And>j x. P x \<Longrightarrow> P (loadFrame j x)"
    and "\<And>x b. P x \<Longrightarrow> P (x\<lparr> preloadTimer := b \<rparr>)"
    and "P s"
  shows "P (proximityLoad s)"
proof -
  have body: "P (trickle is 0 (fold f ds s))"
    if "\<And>d x. P x \<Longrightarrow> P (f d x)" for f ds "is"
    by (rule trickle_preserves [where P = P], rule assms(1), assumption,
        rule fold_inv [where P = P]) (simp_all add: that assms(3))
  show ?thesis
    unfolding proximityLoad_def Let_def
    by (split if_split, intro conjI impI assms(2); rule body) (simp_all add: assms(1))
qed

lemma preloadFrames_fold:
  "preloadFrames s = (fold loadFrame (map seed_index [0..<keyCount]) s)\<lparr> preloadTimer := True \<rparr>"
  by (simp add: preloadFrames_def fold_map o_def)

lemma store_inv_preloadTimer: "store_inv (s\<lparr> preloadTimer := b \<rparr>) = store_inv s"
  by (simp add: store_inv_def status_def)

lemma preloadFrames_inv: "store_inv s \<Longrightarrow> store_inv (preloadFrames s)"
  unfolding preloadFrames_fold store_inv_preloadTimer
  by (rule fold_inv [where P = store_inv]) (simp_all add: loadFrame_inv)

lemma proximityLoad_inv: "store_inv s \<Longrightarrow> store_inv (proximityLoad s)"
  by (rule proximityLoad_preserves [where P = store_inv])
    (simp_all add: loadFrame_inv store_inv_preloadTimer)

lemma initial_inv: "store_inv initial"
  by (simp add: store_inv_def initial_status) (simp add: initial_def)

lemma init_inv: "store_inv (init win)"
proof -
  have "store_inv (syncBodyHeight win initial)"
    using initial_inv by (simp add: store_inv_def status_def syncBodyHeight_store)
  then have "store_inv (preloadFrames (syncBodyHeight win initial))"
    by (rule preloadFrames_inv)
  then show ?thesis
    by (simp add: init_def store_inv_def status_def onScroll_store)
qed

lemma step_inv:
  assumes "step s s'" and "store_inv s"
  shows "store_inv s'"
  using assms
proof (cases rule: step.cases)
  case (scroll win)
  with assms(2) show ?thesis by (simp add: store_inv_def status_def onScroll_store)
next
  case (resize win)
  with assms(2) show ?thesis by (simp add: store_inv_def status_def onResize_store)
next
  case (mouse win x y)
  with assms(2) show ?thesis by (simp add: store_inv_def status_def onMouseMove_store)
next
  case (tick timestamp)
  with assms(2) show ?thesis by (simp add: store_inv_def status_def animate_store)
next
  case timer
  with assms(2) show ?thesis by (simp add: proximityLoad_inv)
next
  case (loaded index win w h)
  with assms(2) show ?thesis by (simp add: img_onload_inv)
next
  case (failed index)
  with assms(2) show ?thesis by (simp add: img_onerror_inv)
qed

lemma reachable_inv: "reachable s \<Longrightarrow> store_inv s"
  by (induction rule: reachable.induct) (simp_all add: init_inv step_inv)

section \<open>Properties of the preloader\<close>

text \<open>A fresh batch of requests: every index of the list is unrequested and occurs once.\<close>

lemma fold_loadFrame_fresh:
  assumes "distinct js" and "\<forall>j\<in>set js. status s j = Some 0"
  shows "trace (fold loadFrame js s) = trace s @ map Request js
       \<and> pending (fold loadFrame js s) = pending s + mset js
       \<and> (\<forall>i. status (fold loadFrame js s) i = (if i \<in> set js then Some 1 else status s i))
       \<and> frames (fold loadFrame js s) = frames s"
  using assms
proof (induction js arbitrary: s)
  case Nil
  show ?case by simp
next
  case (Cons j js)
  from Cons.prems have j: "status s j = Some 0" and nj: "j \<notin> set js" and d: "distinct js"
    by simp_all
  have rest: "\<forall>k\<in>set js. status (loadFrame j s) k = Some 0"
    using Cons.prems nj by (auto simp: loadFrame_status)
  note IH = Cons.IH [OF d rest]
  have t: "trace (loadFrame j s) = trace s @ [Request j]"
    and p: "pending (loadFrame j s) = add_mset j (pending s)"
    using j by (simp_all add: loadFrame_trace loadFrame_pending)
  show ?case
    using IH j by (auto simp: t p loadFrame_status loadFrame_frames)
qed

lemma seed_indices:
  "map seed_index [0..<keyCount] =
     [0, 8, 16, 24, 31, 39, 47, 55, 63, 71, 78, 86, 94, 102, 110, 118, 125, 133, 141, 149]"
  by (simp add: keyCount_def seed_index_def FRAME_COUNT_def Math_round_def upt_rec)

lemma seed_in_range: "j \<in> set (map seed_index [0..<keyCount]) \<Longrightarrow> in_range j"
  unfolding seed_indices by (auto simp: in_range_def FRAME_COUNT_def)

lemma preloadFrames_fresh:
  assumes "\<forall>j. in_range j \<longrightarrow> status s j = Some 0"
  shows "trace (preloadFrames s) = trace s @ map Request (map seed_index [0..<keyCount])
       \<and> pending (preloadFrames s) = pending s + mset (map seed_index [0..<keyCount])
       \<and> (\<forall>i. status (preloadFrames s) i
              = (if i \<in> set (map seed_index [0..<keyCount]) then Some 1 else status s i))
       \<and> frames (preloadFrames s) = frames s"
proof -
  have d: "distinct (map seed_index [0..<keyCount])"
    unfolding seed_indices by simp
  have f: "\<forall>j\<in>set (map seed_index [0..<keyCount]). status s j = Some 0"
    using assms seed_in_range by blast
  show ?thesis
    using fold_loadFrame_fresh [OF d f] by (simp add: preloadFrames_fold status_def)
qed

lemma init_store:
  "trace (init win) = map Request (map seed_index [0..<keyCount])
   \<and> pending (init win) = mset (map seed_index [0..<keyCount])
   \<and> (\<forall>i. status (init win) i
          = (if i \<in> set (map seed_index [0..<keyCount]) then Some 1 else status initial i))
   \<and> frames (init win) = Map.empty"
proof -
  let ?s = "syncBodyHeight win initial"
  have s: "status ?s = status initial" "trace ?s = []" "pending ?s = {#}" "frames ?s = Map.empty"
    by (simp_all add: syncBodyHeight_def status_def initial_def fun_eq_iff)
  have "\<forall>j. in_range j \<longrightarrow> status ?s j = Some 0"
    by (simp add: s initial_status)
  from preloadFrames_fresh [OF this] show ?thesis
    by (simp add: init_def s onScroll_store status_def onScroll_def Let_def)
qed

text \<open>
  Claim C5 (seed phase). With \<open>keyCount = 20\<close> and \<open>FRAME_COUNT = 150\<close> the indices
  \<open>round (i * 149 / 19)\<close> for \<open>i\<close> in \<open>[0, 20)\<close> are 0, 8, 16, 24, 31, ..., 141, 149, and the
  seed phase requests exactly these: they are the requests in the trace after
  \<^verbatim>\<open>preloadFrames\<close> on the initial state and after \<^verbatim>\<open>init\<close>, and exactly these frames are
  Loading then.
\<close>

theorem seed_phase_requests:
  "map seed_index [0..<keyCount] =
     [0, 8, 16, 24, 31, 39, 47, 55, 63, 71, 78, 86, 94, 102, 110, 118, 125, 133, 141, 149]
   \<and> trace (preloadFrames initial) = map Request (map seed_index [0..<keyCount])
   \<and> trace (init win) =
       map Request [0, 8, 16, 24, 31, 39, 47, 55, 63, 71, 78, 86, 94, 102, 110, 118, 125, 133, 141, 149]
   \<and> {i. status (init win) i = Some 1} =
       {0, 8, 16, 24, 31, 39, 47, 55, 63, 71, 78, 86, 94, 102, 110, 118, 125, 133, 141, 149}"
proof -
  have a: "trace (preloadFrames initial) = map Request (map seed_index [0..<keyCount])"
    using preloadFrames_fresh [of initial] by (simp add: initial_status) (simp add: initial_def)
  have b: "trace (init win) = map Request (map seed_index [0..<keyCount])"
    by (simp add: init_store)
  have "status initial i \<noteq> Some 1" for i
  proof (cases "in_range i")
    case True
    then show ?thesis by (simp add: initial_status)
  next
    case False
    have "length (frameStatus initial) = nat FRAME_COUNT" by (simp add: initial_def)
    from status_in_range [OF this, of i] False show ?thesis by simp
  qed
  then have c: "{i. status (init win) i = Some 1} = set (map seed_index [0..<keyCount])"
    by (auto simp: init_store)
  show ?thesis
    using a b c unfolding seed_indices by simp
qed

text \<open>How one event changes the images and the status of a frame.\<close>

lemma proximityLoad_frames: "frames (proximityLoad s) = frames s"
  by (rule proximityLoad_preserves [where P = "\<lambda>x. frames x = frames s"])
    (simp_all add: loadFrame_frames)

lemma proximityLoad_keeps_ready:
  assumes "status s i = Some 2"
  shows "status (proximityLoad s) i = Some 2"
proof (rule proximityLoad_preserves [where P = "\<lambda>x. status x i = Some 2"])
  show "status (loadFrame j x) i = Some 2" if "status x i = Some 2" for j x
    using that by (auto simp: loadFrame_status)
  show "status (x\<lparr> preloadTimer := b \<rparr>) i = Some 2" if "status x i = Some 2" for x b
    using that by (simp add: status_def)
  show "status s i = Some 2" by (rule assms)
qed

lemma step_frames:
  assumes "step s s'" and "store_inv s" and "in_range i"
  shows "frames s' i = frames s i
       \<or> (frames s i = None \<and> status s i = Some 1 \<and> frames s' i \<noteq> None \<and> status s' i = Some 2)"
  using assms(1)
proof (cases rule: step.cases)
  case (loaded index win w h)
  show ?thesis
  proof (cases "i = index")
    case True
    with loaded assms(2,3) have "status s i = Some 1" "frames s i = None"
      using pending_is_loading by simp_all
    with True loaded show ?thesis
      by (simp add: img_onload_frames img_onload_status)
  next
    case False
    with loaded show ?thesis by (simp add: img_onload_frames)
  qed
qed (simp_all add: onScroll_store onResize_store onMouseMove_store animate_store
    proximityLoad_frames img_onerror_rest)

lemma step_keeps_ready:
  assumes "step s s'" and "store_inv s" and "in_range i" and "status s i = Some 2"
  shows "status s' i = Some 2"
  using assms(1)
proof (cases rule: step.cases)
  case (loaded index win w h)
  with assms(4) show ?thesis by (simp add: img_onload_status)
next
  case (failed index)
  have "i \<noteq> index"
  proof
    assume "i = index"
    with failed assms(2,3) have "status s i = Some 1"
      using pending_is_loading by simp
    with assms(4) show False by simp
  qed
  with failed assms(4) show ?thesis by (simp add: img_onerror_status)
next
  case timer
  with assms(4) show ?thesis by (simp add: proximityLoad_keeps_ready)
qed (use assms(4) in \<open>simp_all add: status_def onScroll_store onResize_store onMouseMove_store
    animate_store\<close>)

section \<open>The frame store over a run\<close>

lemma steps_reachable: "step\<^sup>*\<^sup>* s s' \<Longrightarrow> reachable s \<Longrightarrow> reachable s'"
  by (induction rule: rtranclp_induct) (auto intro: reachable.later)

lemma steps_keep_image:
  assumes "step\<^sup>*\<^sup>* s s'" and "reachable s" and "in_range i" and "frames s i = Some img"
  shows "frames s' i = Some img"
  using assms(1)
proof (induction rule: rtranclp_induct)
  case base
  show ?case by (rule assms(4))
next
  case (step y z)
  from steps_reachable [OF step.hyps(1) assms(2)] have "store_inv y"
    by (rule reachable_inv)
  from step_frames [OF step.hyps(2) this assms(3)] step.IH show ?case by auto
qed

lemma steps_keep_ready:
  assumes "step\<^sup>*\<^sup>* s s'" and "reachable s" and "in_range i" and "status s i = Some 2"
  shows "status s' i = Some 2"
  using assms(1)
proof (induction rule: rtranclp_induct)
  case base
  show ?case by (rule assms(4))
next
  case (step y z)
  from steps_reachable [OF step.hyps(1) assms(2)] have "store_inv y"
    by (rule reachable_inv)
  from step_keeps_ready [OF step.hyps(2) this assms(3) step.IH] show ?case .
qed

lemma seed_0_pending: "0 \<in># pending (init win)"
  by (simp add: init_store seed_indices)

lemma first_loaded_reachable: "reachable first_loaded"
  unfolding first_loaded_def
  by (rule reachable.later [OF reachable.start step.loaded]) (rule seed_0_pending)

lemma first_shown_reachable: "reachable first_shown"
  unfolding first_shown_def
  by (rule reachable.later [OF first_loaded_reachable step.tick])

lemma in_range_0: "in_range 0"
  by (simp add: in_range_def FRAME_COUNT_def)

text \<open>
  Claim C10 (payload and status agree). In every reachable state and for every index of the
  sequence, the slot of \<open>frames\<close> holds an image exactly when the status is Ready (2), so a
  test of the slot is a test of the status. An image in a slot is still there, unchanged,
  after any number of further events; and an event changes a slot only from empty to an
  image, on the successful load of a frame that was Loading, which becomes Ready.
\<close>

theorem frames_nonnull_iff_ready:
  assumes "reachable s" and "in_range i"
  shows "(frames s i \<noteq> None \<longleftrightarrow> status s i = Some 2)
       \<and> (\<forall>s' img. step\<^sup>*\<^sup>* s s' \<longrightarrow> frames s i = Some img \<longrightarrow> frames s' i = Some img)
       \<and> (\<forall>s'. step s s' \<longrightarrow> frames s' i \<noteq> frames s i \<longrightarrow>
              frames s i = None \<and> status s i = Some 1 \<and> status s' i = Some 2)"
proof -
  from assms(1) have inv: "store_inv s" by (rule reachable_inv)
  with assms(2) have "frames s i \<noteq> None \<longleftrightarrow> status s i = Some 2"
    by (simp add: store_inv_def)
  moreover have "\<forall>s' img. step\<^sup>*\<^sup>* s s' \<longrightarrow> frames s i = Some img \<longrightarrow> frames s' i = Some img"
    using steps_keep_image [OF _ assms] by blast
  moreover have "\<forall>s'. step s s' \<longrightarrow> frames s' i \<noteq> frames s i \<longrightarrow>
      frames s i = None \<and> status s i = Some 1 \<and> status s' i = Some 2"
    using step_frames [OF _ inv assms(2)] by blast
  ultimately show ?thesis by blast
qed

theorem frames_nonnull_iff_ready_witness:
  "reachable first_loaded \<and> in_range 0
   \<and> frames first_loaded 0 = Some (Image 0 1920 1080)
   \<and> status first_loaded 0 = Some 2
   \<and> frames first_shown 0 = Some (Image 0 1920 1080)
   \<and> frames (init desktop) 0 = None \<and> status (init desktop) 0 = Some 1"
proof -
  have f: "frames first_loaded 0 = Some (Image 0 1920 1080)"
    by (simp add: first_loaded_def img_onload_frames)
  have st: "step\<^sup>*\<^sup>* first_loaded first_shown"
    unfolding first_shown_def by (rule r_into_rtranclp) (rule step.tick)
  have i: "frames (init desktop) 0 = None" "status (init desktop) 0 = Some 1"
    by (simp_all add: init_store seed_indices)
  note T = frames_nonnull_iff_ready [OF first_loaded_reachable in_range_0]
  from T f have "status first_loaded 0 = Some 2" by simp
  moreover from T f st have "frames first_shown 0 = Some (Image 0 1920 1080)" by blast
  ultimately show ?thesis
    using f i first_loaded_reachable in_range_0 by simp
qed

text \<open>
  Claim C7 (load failure). In a reachable state, when the image pending for a frame fails, the
  frame goes from Loading (1) back to Unrequested (0); no other status changes, no slot of
  \<open>frames\<close> changes (the frame's own is empty before and after), the loaded count is the same
  and nothing is added to the trace of effects; a later \<^verbatim>\<open>loadFrame\<close> for the frame requests
  it again. And a frame that is Ready (2) is Ready after any number of further events.
\<close>

theorem load_failure_reverts:
  assumes "reachable s" and "in_range i"
  shows "(i \<in># pending s \<longrightarrow>
            status s i = Some 1 \<and> frames s i = None
          \<and> status (img_onerror i s) i = Some 0
          \<and> (\<forall>j. j \<noteq> i \<longrightarrow> status (img_onerror i s) j = status s j)
          \<and> frames (img_onerror i s) = frames s
          \<and> framesLoadedCount (img_onerror i s) = framesLoadedCount s
          \<and> trace (img_onerror i s) = trace s
          \<and> status (loadFrame i (img_onerror i s)) i = Some 1
          \<and> trace (loadFrame i (img_onerror i s)) = trace s @ [Request i])
       \<and> (\<forall>s'. step\<^sup>*\<^sup>* s s' \<longrightarrow> status s i = Some 2 \<longrightarrow> status s' i = Some 2)"
proof -
  from assms(1) have inv: "store_inv s" by (rule reachable_inv)
  have fail: "status s i = Some 1 \<and> frames s i = None
          \<and> status (img_onerror i s) i = Some 0
          \<and> (\<forall>j. j \<noteq> i \<longrightarrow> status (img_onerror i s) j = status s j)
          \<and> frames (img_onerror i s) = frames s
          \<and> framesLoadedCount (img_onerror i s) = framesLoadedCount s
          \<and> trace (img_onerror i s) = trace s
          \<and> status (loadFrame i (img_onerror i s)) i = Some 1
          \<and> trace (loadFrame i (img_onerror i s)) = trace s @ [Request i]"
    if "i \<in># pending s"
  proof -
    from pending_is_loading [OF inv assms(2) that]
    have l: "status s i = Some 1" "frames s i = None" by simp_all
    then have z: "status (img_onerror i s) i = Some 0"
      by (simp add: img_onerror_status)
    show ?thesis
      using l z by (simp add: img_onerror_status img_onerror_rest loadFrame_status loadFrame_trace)
  qed
  have "\<forall>s'. step\<^sup>*\<^sup>* s s' \<longrightarrow> status s i = Some 2 \<longrightarrow> status s' i = Some 2"
    using steps_keep_ready [OF _ assms] by blast
  with fail show ?thesis by blast
qed

theorem load_failure_reverts_witness:
  "reachable (init desktop) \<and> in_range 0 \<and> 0 \<in># pending (init desktop)
   \<and> status (init desktop) 0 = Some 1
   \<and> status (img_onerror 0 (init desktop)) 0 = Some 0
   \<and> framesLoadedCount (img_onerror 0 (init desktop)) = framesLoadedCount (init desktop)
   \<and> trace (loadFrame 0 (img_onerror 0 (init desktop))) = trace (init desktop) @ [Request 0]
   \<and> reachable first_loaded \<and> status first_loaded 0 = Some 2 \<and> status first_shown 0 = Some 2"
proof -
  note F = load_failure_reverts [OF reachable.start in_range_0, of desktop]
  from F seed_0_pending [of desktop]
  have a: "status (init desktop) 0 = Some 1"
    "status (img_onerror 0 (init desktop)) 0 = Some 0"
    "framesLoadedCount (img_onerror 0 (init desktop)) = framesLoadedCount (init desktop)"
    "trace (loadFrame 0 (img_onerror 0 (init desktop))) = trace (init desktop) @ [Request 0]"
    by blast+
  have r: "status first_loaded 0 = Some 2"
    by (simp add: first_loaded_def img_onload_status init_store seed_indices)
  have st: "step\<^sup>*\<^sup>* first_loaded first_shown"
    unfolding first_shown_def by (rule r_into_rtranclp) (rule step.tick)
  from load_failure_reverts [OF first_loaded_reachable in_range_0] st r
  have "status first_shown 0 = Some 2" by blast
  with a r show ?thesis
    using reachable.start [of desktop] in_range_0 seed_0_pending [of desktop] first_loaded_reachable
    by simp
qed

section \<open>The search for the nearest image\<close>

text \<open>
  The scan returns nothing exactly when no distance of the list has a neighbour with an
  image; otherwise it returns the image at the first distance that has one, the lower
  neighbour's if both have.
\<close>

lemma nearest_scan_None:
  "nearest_scan fr index ds = None \<longleftrightarrow>
     (\<forall>d\<in>set ds. \<not> (index - int d \<ge> 0 \<and> fr (index - int d) \<noteq> None)
                \<and> \<not> (index + int d < FRAME_COUNT \<and> fr (index + int d) \<noteq> None))"
  by (induction ds) auto

lemma nearest_scan_first:
  assumes "sorted_wrt (<) ds" and "nearest_scan fr index ds = Some img"
  shows "\<exists>d\<in>set ds.
           (\<forall>d'\<in>set ds. d' < d \<longrightarrow>
               \<not> (index - int d' \<ge> 0 \<and> fr (index - int d') \<noteq> None)
             \<and> \<not> (index + int d' < FRAME_COUNT \<and> fr (index + int d') \<noteq> None))
         \<and> ((index - int d \<ge> 0 \<and> fr (index - int d) = Some img)
            \<or> (\<not> (index - int d \<ge> 0 \<and> fr (index - int d) \<noteq> None)
               \<and> index + int d < FRAME_COUNT \<and> fr (index + int d) = Some img))"
  using assms
proof (induction ds)
  case Nil
  then show ?case by simp
next
  case (Cons d ds)
  from Cons.prems(1) have above: "\<forall>x\<in>set ds. d < x" and sorted: "sorted_wrt (<) ds"
    by simp_all
  consider (lo) "index - int d \<ge> 0 \<and> fr (index - int d) \<noteq> None"
    | (hi) "\<not> (index - int d \<ge> 0 \<and> fr (index - int d) \<noteq> None)"
        "index + int d < FRAME_COUNT \<and> fr (index + int d) \<noteq> None"
    | (none) "\<not> (index - int d \<ge> 0 \<and> fr (index - int d) \<noteq> None)"
        "\<not> (index + int d < FRAME_COUNT \<and> fr (index + int d) \<noteq> None)"
    by blast
  then show ?case
  proof cases
    case lo
    with Cons.prems(2) have "fr (index - int d) = Some img" by simp
    with lo above show ?thesis by (intro bexI [of _ d]) auto
  next
    case hi
    with Cons.prems(2) have "fr (index + int d) = Some img" by auto
    with hi above show ?thesis by (intro bexI [of _ d]) auto
  next
    case none
    with Cons.prems(2) have "nearest_scan fr index ds = Some img" by auto
    from Cons.IH [OF sorted this] obtain e where e: "e \<in> set ds"
      and before: "\<forall>d'\<in>set ds. d' < e \<longrightarrow>
               \<not> (index - int d' \<ge> 0 \<and> fr (index - int d') \<noteq> None)
             \<and> \<not> (index + int d' < FRAME_COUNT \<and> fr (index + int d') \<noteq> None)"
      and at: "(index - int e \<ge> 0 \<and> fr (index - int e) = Some img)
            \<or> (\<not> (index - int e \<ge> 0 \<and> fr (index - int e) \<noteq> None)
               \<and> index + int e < FRAME_COUNT \<and> fr (index + int e) = Some img)"
      by blast
    show ?thesis
    proof (intro bexI [of _ e] conjI)
      show "e \<in> set (d # ds)" using e by simp
      show "\<forall>d'\<in>set (d # ds). d' < e \<longrightarrow>
               \<not> (index - int d' \<ge> 0 \<and> fr (index - int d') \<noteq> None)
             \<and> \<not> (index + int d' < FRAME_COUNT \<and> fr (index + int d') \<noteq> None)"
        using before none by simp
      show "(index - int e \<ge> 0 \<and> fr (index - int e) = Some img)
            \<or> (\<not> (index - int e \<ge> 0 \<and> fr (index - int e) \<noteq> None)
               \<and> index + int e < FRAME_COUNT \<and> fr (index + int e) = Some img)"
        by (rule at)
    qed
  qed
qed

text \<open>Every other index of the sequence is a neighbour at one of the distances tried.\<close>

lemma neighbour_distance:
  assumes "in_range index" and "in_range k" and "k \<noteq> index"
  shows "nat \<bar>k - index\<bar> \<in> set [1..<nat FRAME_COUNT]
       \<and> (k = index - int (nat \<bar>k - index\<bar>) \<or> k = index + int (nat \<bar>k - index\<bar>))"
  using assms by (auto simp: in_range_def FRAME_COUNT_def)

lemma pick_image_None:
  assumes "in_range index"
  shows "pick_image fr index = None \<longleftrightarrow> (\<forall>k. in_range k \<longrightarrow> fr k = None)"
proof
  assume none: "pick_image fr index = None"
  then have here: "fr index = None"
    by (simp add: pick_image_def split: option.splits)
  with none have scan: "nearest_scan fr index [1..<nat FRAME_COUNT] = None"
    by (simp add: pick_image_def)
  show "\<forall>k. in_range k \<longrightarrow> fr k = None"
  proof (intro allI impI)
    fix k assume k: "in_range k"
    show "fr k = None"
    proof (cases "k = index")
      case True
      with here show ?thesis by simp
    next
      case False
      let ?d = "nat \<bar>k - index\<bar>"
      from neighbour_distance [OF assms k False]
      have d: "?d \<in> set [1..<nat FRAME_COUNT]" and side: "k = index - int ?d \<or> k = index + int ?d"
        by simp_all
      from scan d have
        "\<not> (index - int ?d \<ge> 0 \<and> fr (index - int ?d) \<noteq> None)"
        "\<not> (index + int ?d < FRAME_COUNT \<and> fr (index + int ?d) \<noteq> None)"
        unfolding nearest_scan_None by blast+
      with side k show ?thesis
        by (auto simp: in_range_def)
    qed
  qed
next
  assume all: "\<forall>k. in_range k \<longrightarrow> fr k = None"
  have "nearest_scan fr index ds = None" for ds
    unfolding nearest_scan_None
  proof (intro ballI conjI notI)
    fix d assume "index - int d \<ge> 0 \<and> fr (index - int d) \<noteq> None"
    moreover from this assms have "in_range (index - int d)" by (simp add: in_range_def)
    ultimately show False using all by simp
  next
    fix d assume "index + int d < FRAME_COUNT \<and> fr (index + int d) \<noteq> None"
    moreover from this assms have "in_range (index + int d)" by (simp add: in_range_def)
    ultimately show False using all by simp
  qed
  with all assms show "pick_image fr index = None"
    by (simp add: pick_image_def)
qed

lemma pick_image_Some:
  assumes "in_range index" and "pick_image fr index = Some img"
  shows "\<exists>j. in_range j \<and> fr j = Some img
           \<and> (fr index \<noteq> None \<longrightarrow> j = index)
           \<and> (\<forall>k. in_range k \<and> fr k \<noteq> None \<longrightarrow>
                 \<bar>j - index\<bar> < \<bar>k - index\<bar> \<or> (\<bar>j - index\<bar> = \<bar>k - index\<bar> \<and> j \<le> k))"
proof (cases "fr index")
  case (Some a)
  with assms(2) have "fr index = Some img" by (simp add: pick_image_def)
  with assms(1) show ?thesis by (intro exI [of _ index]) auto
next
  case None
  with assms(2) have scan: "nearest_scan fr index [1..<nat FRAME_COUNT] = Some img"
    by (simp add: pick_image_def)
  have "sorted_wrt (<) [1..<nat FRAME_COUNT]" by simp
  from nearest_scan_first [OF this scan] obtain d where d: "d \<in> set [1..<nat FRAME_COUNT]"
    and before: "\<forall>d'\<in>set [1..<nat FRAME_COUNT]. d' < d \<longrightarrow>
               \<not> (index - int d' \<ge> 0 \<and> fr (index - int d') \<noteq> None)
             \<and> \<not> (index + int d' < FRAME_COUNT \<and> fr (index + int d') \<noteq> None)"
    and at: "(index - int d \<ge> 0 \<and> fr (index - int d) = Some img)
            \<or> (\<not> (index - int d \<ge> 0 \<and> fr (index - int d) \<noteq> None)
               \<and> index + int d < FRAME_COUNT \<and> fr (index + int d) = Some img)"
    by blast
  from d have d1: "1 \<le> d" by simp
  text \<open>No index with an image is closer than \<open>d\<close>.\<close>
  have far: "int d \<le> \<bar>k - index\<bar>" if k: "in_range k" "fr k \<noteq> None" for k
  proof (rule ccontr)
    assume "\<not> int d \<le> \<bar>k - index\<bar>"
    then have less: "nat \<bar>k - index\<bar> < d" by simp
    from k None have "k \<noteq> index" by auto
    from neighbour_distance [OF assms(1) k(1) this] before less
    have "\<not> (index - int (nat \<bar>k - index\<bar>) \<ge> 0 \<and> fr (index - int (nat \<bar>k - index\<bar>)) \<noteq> None)"
      "\<not> (index + int (nat \<bar>k - index\<bar>) < FRAME_COUNT \<and> fr (index + int (nat \<bar>k - index\<bar>)) \<noteq> None)"
      "k = index - int (nat \<bar>k - index\<bar>) \<or> k = index + int (nat \<bar>k - index\<bar>)"
      by blast+
    with k show False by (auto simp: in_range_def)
  qed
  from at show ?thesis
  proof
    assume lo: "index - int d \<ge> 0 \<and> fr (index - int d) = Some img"
    show ?thesis
    proof (intro exI [of _ "index - int d"] conjI allI impI)
      show "in_range (index - int d)" using lo assms(1) by (simp add: in_range_def)
      show "fr (index - int d) = Some img" using lo by simp
      show "index - int d = index" if "fr index \<noteq> None" using that None by simp
      show "\<bar>index - int d - index\<bar> < \<bar>k - index\<bar>
          \<or> (\<bar>index - int d - index\<bar> = \<bar>k - index\<bar> \<and> index - int d \<le> k)"
        if "in_range k \<and> fr k \<noteq> None" for k
        using far [of k] that by auto
    qed
  next
    assume hi: "\<not> (index - int d \<ge> 0 \<and> fr (index - int d) \<noteq> None)
               \<and> index + int d < FRAME_COUNT \<and> fr (index + int d) = Some img"
    show ?thesis
    proof (intro exI [of _ "index + int d"] conjI allI impI)
      show "in_range (index + int d)" using hi assms(1) by (simp add: in_range_def)
      show "fr (index + int d) = Some img" using hi by simp
      show "index + int d = index" if "fr index \<noteq> None" using that None by simp
      show "\<bar>index + int d - index\<bar> < \<bar>k - index\<bar>
          \<or> (\<bar>index + int d - index\<bar> = \<bar>k - index\<bar> \<and> index + int d \<le> k)"
        if k: "in_range k \<and> fr k \<noteq> None" for k
      proof (cases "k = index - int d")
        case True
        with hi k show ?thesis by (auto simp: in_range_def)
      next
        case False
        with far [of k] k show ?thesis by auto
      qed
    qed
  qed
qed

lemma pick_image_example: "pick_image (Map.empty(5 \<mapsto> a, 9 \<mapsto> b)) 7 = Some a"
  by (simp add: pick_image_def FRAME_COUNT_def upt_rec)

section \<open>Some concrete runs\<close>

text \<open>The fields \<^verbatim>\<open>loadFrame\<close> and the start-up leave alone.\<close>

lemma loadFrame_view:
  "anyFrameReady (loadFrame j s) = anyFrameReady s \<and> currentFrame (loadFrame j s) = currentFrame s
   \<and> displayedFrame (loadFrame j s) = displayedFrame s \<and> targetFrame (loadFrame j s) = targetFrame s
   \<and> offCtx (loadFrame j s) = offCtx s \<and> offBuffer (loadFrame j s) = offBuffer s
   \<and> framesLoadedCount (loadFrame j s) = framesLoadedCount s"
  by (simp add: loadFrame_cases)

lemma fold_loadFrame_view:
  "anyFrameReady (fold loadFrame js s) = anyFrameReady s
   \<and> currentFrame (fold loadFrame js s) = currentFrame s
   \<and> displayedFrame (fold loadFrame js s) = displayedFrame s
   \<and> targetFrame (fold loadFrame js s) = targetFrame s
   \<and> offCtx (fold loadFrame js s) = offCtx s \<and> offBuffer (fold loadFrame js s) = offBuffer s
   \<and> framesLoadedCount (fold loadFrame js s) = framesLoadedCount s"
  by (induction js arbitrary: s) (simp_all add: loadFrame_view)

lemma init_view:
  "anyFrameReady (init win) = False \<and> currentFrame (init win) = - 1
   \<and> displayedFrame (init win) = - 1 \<and> offCtx (init win) = False
   \<and> offBuffer (init win) = None \<and> framesLoadedCount (init win) = 0"
  by (simp add: init_def onScroll_def Let_def preloadFrames_fold fold_loadFrame_view
      syncBodyHeight_def initial_def)

lemma init_desktop_targetFrame: "targetFrame (init desktop) = 0"
  by (simp add: init_def onScroll_def Let_def desktop_def Math_round_def FRAME_COUNT_def)

lemma img_onload_first:
  assumes "\<not> anyFrameReady s"
  shows "img_onload win j w h s =
     blitBuffer (drawFrameToBuffer j (resizeCanvas win
       (s\<lparr> frames := (frames s)(j \<mapsto> Image j w h),
           frameStatus := Uint8_set (frameStatus s) j 2,
           pending := pending s - {#j#},
           framesLoadedCount := framesLoadedCount s + 1,
           trace := trace s @ [UpdatePreloader (framesLoadedCount s + 1)],
           anyFrameReady := True \<rparr>)))"
  using assms by (simp add: img_onload_def onFrameReady_def updatePreloader_def Let_def)

lemma img_onload_later:
  assumes "anyFrameReady s"
  shows "img_onload win j w h s =
       s\<lparr> frames := (frames s)(j \<mapsto> Image j w h),
           frameStatus := Uint8_set (frameStatus s) j 2,
           pending := pending s - {#j#},
           framesLoadedCount := framesLoadedCount s + 1,
           trace := trace s @ [UpdatePreloader (framesLoadedCount s + 1)] \<rparr>"
  using assms by (simp add: img_onload_def onFrameReady_def updatePreloader_def Let_def)

lemma pick_image_here: "fr j = Some img \<Longrightarrow> pick_image fr j = Some img"
  by (simp add: pick_image_def)

lemma first_loaded_view:
  "anyFrameReady first_loaded \<and> offCtx first_loaded
   \<and> displayedFrame first_loaded = - 1 \<and> currentFrame first_loaded = - 1
   \<and> targetFrame first_loaded = 0
   \<and> offBuffer first_loaded = Some (Image 0 1920 1080)"
  by (simp add: first_loaded_def img_onload_first init_view blitBuffer_def drawFrameToBuffer_def
      resizeCanvas_def pick_image_here init_desktop_targetFrame Let_def split: prod.split)

lemma lerp_same: "lerp t t f dt = t"
  by (simp add: lerp_is_snap snap_target)

lemma animate_view:
  "currentFrame (animate ts s) = animate_sf ts s \<and> targetFrame (animate ts s) = targetFrame s
   \<and> anyFrameReady (animate ts s) = anyFrameReady s
   \<and> displayedFrame (animate ts s) =
       (if renderFrame ts s \<noteq> displayedFrame s \<and> anyFrameReady s
        then min (max (renderFrame ts s) 0) (FRAME_COUNT - 1) else displayedFrame s)
   \<and> trace (animate ts s) =
       (if renderFrame ts s \<noteq> displayedFrame s \<and> anyFrameReady s
        then trace (blitBuffer (drawFrameToBuffer (min (max (renderFrame ts s) 0) (FRAME_COUNT - 1)) s))
        else trace s)"
  by (simp add: animate_def renderFrame_def Let_def blitBuffer_def drawFrameToBuffer_def
      split: option.split prod.split)

lemma first_shown_view:
  "displayedFrame first_shown = 0 \<and> currentFrame first_shown = 0 \<and> targetFrame first_shown = 0
   \<and> anyFrameReady first_shown"
proof -
  have sf: "animate_sf 1000 first_loaded = 0"
    by (simp add: animate_sf_def first_loaded_view lerp_same)
  then have rf: "renderFrame 1000 first_loaded = 0"
    by (simp add: renderFrame_def Math_round_def)
  show ?thesis
    by (simp add: first_shown_def animate_view sf rf first_loaded_view FRAME_COUNT_def)
qed

section \<open>What the compositor draws\<close>

text \<open>
  Once a first frame is ready the offscreen buffer exists, so the guard on \<open>offCtx\<close> in
  \<^verbatim>\<open>drawFrameToBuffer\<close> never fires for the call in \<^verbatim>\<open>animate\<close>; the other two calls follow a
  \<^verbatim>\<open>resizeCanvas\<close> directly.
\<close>

lemma draw_blit_offCtx:
  "offCtx (drawFrameToBuffer i s) = offCtx s \<and> offCtx (blitBuffer s) = offCtx s
   \<and> anyFrameReady (drawFrameToBuffer i s) = anyFrameReady s
   \<and> anyFrameReady (blitBuffer s) = anyFrameReady s"
  by (simp add: drawFrameToBuffer_def blitBuffer_def Let_def split: option.split prod.split)

lemma step_offCtx:
  assumes "step s s'" and "anyFrameReady s \<longrightarrow> offCtx s"
  shows "anyFrameReady s' \<longrightarrow> offCtx s'"
  using assms(1)
proof (cases rule: step.cases)
  case (scroll win)
  with assms(2) show ?thesis by (simp add: onScroll_def Let_def)
next
  case (resize win)
  then show ?thesis
    by (simp add: onResize_def Let_def draw_blit_offCtx syncBodyHeight_def resizeCanvas_def)
next
  case (mouse win x y)
  with assms(2) show ?thesis by (simp add: onMouseMove_def)
next
  case (tick timestamp)
  with assms(2) show ?thesis by (simp add: animate_def Let_def draw_blit_offCtx)
next
  case timer
  have "anyFrameReady (proximityLoad s) = anyFrameReady s \<and> offCtx (proximityLoad s) = offCtx s"
    by (rule proximityLoad_preserves
        [where P = "\<lambda>x. anyFrameReady x = anyFrameReady s \<and> offCtx x = offCtx s"])
      (simp_all add: loadFrame_view)
  with timer assms(2) show ?thesis by simp
next
  case (loaded index win w h)
  show ?thesis
  proof (cases "anyFrameReady s")
    case True
    with loaded assms(2) show ?thesis by (simp add: img_onload_later)
  next
    case False
    with loaded show ?thesis
      by (simp add: img_onload_first draw_blit_offCtx resizeCanvas_def)
  qed
next
  case (failed index)
  with assms(2) show ?thesis by (simp add: img_onerror_def)
qed

lemma reachable_offCtx: "reachable s \<Longrightarrow> anyFrameReady s \<Longrightarrow> offCtx s"
proof (induction rule: reachable.induct)
  case (start win)
  then show ?case by (simp add: init_view)
next
  case (later s s')
  with step_offCtx [of s s'] show ?case by blast
qed

lemma drawFrameToBuffer_cases:
  assumes "offCtx s"
  shows "case pick_image (frames s) index of
           None \<Rightarrow> drawFrameToBuffer index s = s
         | Some img \<Rightarrow>
             offBuffer (drawFrameToBuffer index s) = Some img
           \<and> (\<exists>dx dy dw dh. trace (drawFrameToBuffer index s) =
                 trace s @ [FillRect (canvasW s * dpr s) (canvasH s * dpr s),
                            DrawImage img dx dy dw dh])"
  using assms by (simp add: drawFrameToBuffer_def Let_def split: option.split prod.split)

text \<open>
  Claim C4 (nearest-ready fallback). In a reachable state with an offscreen buffer, for an
  index of the sequence: \<^verbatim>\<open>drawFrameToBuffer\<close> draws nothing and changes nothing exactly when
  its search finds no image, and then no frame at all is Ready; otherwise it paints the image
  of a Ready frame \<open>j\<close>, which is the requested index itself if that is Ready, and in general
  is at the least distance from it among all Ready frames, the lower one of two at the same
  distance. With images at 5 and 9 only, a request for frame 7 finds the image of frame 5.
  The hypothesis on the buffer holds wherever the engine calls the function
  (\<open>reachable_offCtx\<close>, and \<^verbatim>\<open>resizeCanvas\<close> before the other two calls).
\<close>

theorem drawFrameToBuffer_nearest_ready:
  assumes "reachable s" and "in_range index" and "offCtx s"
  shows "(case pick_image (frames s) index of
            None \<Rightarrow> (\<forall>k. in_range k \<longrightarrow> status s k \<noteq> Some 2) \<and> drawFrameToBuffer index s = s
          | Some img \<Rightarrow>
              (\<exists>j. in_range j \<and> status s j = Some 2 \<and> frames s j = Some img
                 \<and> (status s index = Some 2 \<longrightarrow> j = index)
                 \<and> (\<forall>k. in_range k \<and> status s k = Some 2 \<longrightarrow>
                        \<bar>j - index\<bar> < \<bar>k - index\<bar> \<or> (\<bar>j - index\<bar> = \<bar>k - index\<bar> \<and> j \<le> k)))
            \<and> offBuffer (drawFrameToBuffer index s) = Some img
            \<and> (\<exists>dx dy dw dh. trace (drawFrameToBuffer index s) =
                  trace s @ [FillRect (canvasW s * dpr s) (canvasH s * dpr s),
                             DrawImage img dx dy dw dh]))
       \<and> pick_image (Map.empty(5 \<mapsto> a, 9 \<mapsto> b)) 7 = Some a"
proof -
  from assms(1) have "store_inv s" by (rule reachable_inv)
  then have ready: "frames s k \<noteq> None \<longleftrightarrow> status s k = Some 2" if "in_range k" for k
    using that by (simp add: store_inv_def)
  have "case pick_image (frames s) index of
            None \<Rightarrow> (\<forall>k. in_range k \<longrightarrow> status s k \<noteq> Some 2) \<and> drawFrameToBuffer index s = s
          | Some img \<Rightarrow>
              (\<exists>j. in_range j \<and> status s j = Some 2 \<and> frames s j = Some img
                 \<and> (status s index = Some 2 \<longrightarrow> j = index)
                 \<and> (\<forall>k. in_range k \<and> status s k = Some 2 \<longrightarrow>
                        \<bar>j - index\<bar> < \<bar>k - index\<bar> \<or> (\<bar>j - index\<bar> = \<bar>k - index\<bar> \<and> j \<le> k)))
            \<and> offBuffer (drawFrameToBuffer index s) = Some img
            \<and> (\<exists>dx dy dw dh. trace (drawFrameToBuffer index s) =
                  trace s @ [FillRect (canvasW s * dpr s) (canvasH s * dpr s),
                             DrawImage img dx dy dw dh])"
  proof (cases "pick_image (frames s) index")
    case None
    with pick_image_None [OF assms(2), of "frames s"]
    have "\<forall>k. in_range k \<longrightarrow> frames s k = None" by simp
    with ready have "\<forall>k. in_range k \<longrightarrow> status s k \<noteq> Some 2" by blast
    moreover from drawFrameToBuffer_cases [OF assms(3), of index] None
    have "drawFrameToBuffer index s = s" by simp
    ultimately show ?thesis using None by simp
  next
    case (Some img)
    from pick_image_Some [OF assms(2) Some] obtain j where j: "in_range j" "frames s j = Some img"
      and here: "frames s index \<noteq> None \<longrightarrow> j = index"
      and nearest: "\<forall>k. in_range k \<and> frames s k \<noteq> None \<longrightarrow>
                 \<bar>j - index\<bar> < \<bar>k - index\<bar> \<or> (\<bar>j - index\<bar> = \<bar>k - index\<bar> \<and> j \<le> k)"
      by blast
    from j ready [of j] have rj: "status s j = Some 2" by simp
    from here ready [OF assms(2)] have h: "status s index = Some 2 \<longrightarrow> j = index" by simp
    from nearest ready have n: "\<forall>k. in_range k \<and> status s k = Some 2 \<longrightarrow>
                 \<bar>j - index\<bar> < \<bar>k - index\<bar> \<or> (\<bar>j - index\<bar> = \<bar>k - index\<bar> \<and> j \<le> k)"
      by blast
    from j rj h n have "\<exists>j. in_range j \<and> status s j = Some 2 \<and> frames s j = Some img
                 \<and> (status s index = Some 2 \<longrightarrow> j = index)
                 \<and> (\<forall>k. in_range k \<and> status s k = Some 2 \<longrightarrow>
                        \<bar>j - index\<bar> < \<bar>k - index\<bar> \<or> (\<bar>j - index\<bar> = \<bar>k - index\<bar> \<and> j \<le> k))"
      by blast
    moreover from drawFrameToBuffer_cases [OF assms(3), of index] Some
    have "offBuffer (drawFrameToBuffer index s) = Some img
            \<and> (\<exists>dx dy dw dh. trace (drawFrameToBuffer index s) =
                  trace s @ [FillRect (canvasW s * dpr s) (canvasH s * dpr s),
                             DrawImage img dx dy dw dh])"
      by simp
    ultimately show ?thesis using Some by simp
  qed
  then show ?thesis using pick_image_example [of a b] by simp
qed

lemma two_loaded_reachable: "reachable two_loaded"
proof -
  have 8: "8 \<in># pending (init desktop)"
    by (simp add: init_store seed_indices)
  have 16: "16 \<in># pending (img_onload desktop 8 1920 1080 (init desktop))"
    by (simp add: img_onload_pending init_store seed_indices)
  show ?thesis
    unfolding two_loaded_def
    by (rule reachable.later [OF reachable.later [OF reachable.start step.loaded] step.loaded])
      (rule 8, rule 16)
qed

lemma two_loaded_view:
  "offCtx two_loaded
   \<and> frames two_loaded = Map.empty(8 \<mapsto> Image 8 1920 1080, 16 \<mapsto> Image 16 1920 1080)
   \<and> status two_loaded 8 = Some 2 \<and> status two_loaded 16 = Some 2
   \<and> status two_loaded 12 = Some 0"
proof -
  have a: "anyFrameReady (img_onload desktop 8 1920 1080 (init desktop))"
    "offCtx (img_onload desktop 8 1920 1080 (init desktop))"
    by (simp_all add: img_onload_first init_view blitBuffer_def drawFrameToBuffer_def
        resizeCanvas_def pick_image_here Let_def split: prod.split)
  have "in_range 12" by (simp add: in_range_def FRAME_COUNT_def)
  then have i: "status initial 12 = Some 0" by (rule initial_status)
  have o: "offCtx two_loaded"
    using a by (simp add: two_loaded_def img_onload_later)
  have f: "frames two_loaded = Map.empty(8 \<mapsto> Image 8 1920 1080, 16 \<mapsto> Image 16 1920 1080)"
    by (simp add: two_loaded_def img_onload_frames init_store)
  have s: "status two_loaded 8 = Some 2 \<and> status two_loaded 16 = Some 2
      \<and> status two_loaded 12 = Some 0"
    using i by (simp add: two_loaded_def img_onload_status init_store seed_indices)
  from o f s show ?thesis by simp
qed

theorem drawFrameToBuffer_nearest_ready_witness:
  "reachable two_loaded \<and> in_range 12 \<and> offCtx two_loaded
   \<and> status two_loaded 8 = Some 2 \<and> status two_loaded 16 = Some 2
   \<and> status two_loaded 12 = Some 0
   \<and> pick_image (frames two_loaded) 12 = Some (Image 8 1920 1080)
   \<and> offBuffer (drawFrameToBuffer 12 two_loaded) = Some (Image 8 1920 1080)
   \<and> reachable (onResize desktop (init desktop)) \<and> offCtx (onResize desktop (init desktop))
   \<and> pick_image (frames (onResize desktop (init desktop))) 12 = None
   \<and> drawFrameToBuffer 12 (onResize desktop (init desktop)) = onResize desktop (init desktop)
   \<and> pick_image (Map.empty(5 \<mapsto> Image 5 1920 1080, 9 \<mapsto> Image 9 1920 1080)) 7
       = Some (Image 5 1920 1080)"
proof -
  have r: "in_range 12" by (simp add: in_range_def FRAME_COUNT_def)
  have p: "pick_image (frames two_loaded) 12 = Some (Image 8 1920 1080)"
    by (simp add: two_loaded_view pick_image_def FRAME_COUNT_def upt_rec)
  have o: "offCtx two_loaded" by (simp add: two_loaded_view)
  note T = drawFrameToBuffer_nearest_ready [OF two_loaded_reachable r o,
      where a = "Image 5 1920 1080" and b = "Image 9 1920 1080"]
  from T p have d: "offBuffer (drawFrameToBuffer 12 two_loaded) = Some (Image 8 1920 1080)"
    by simp
  from T have x: "pick_image (Map.empty(5 \<mapsto> Image 5 1920 1080, 9 \<mapsto> Image 9 1920 1080)) 7
       = Some (Image 5 1920 1080)"
    by simp
  have r': "reachable (onResize desktop (init desktop))"
    by (rule reachable.later [OF reachable.start step.resize])
  have o': "offCtx (onResize desktop (init desktop))"
    by (simp add: onResize_def resizeCanvas_def syncBodyHeight_def Let_def)
  have e: "pick_image (frames (onResize desktop (init desktop))) 12 = None"
    by (simp add: pick_image_None [OF r] onResize_store init_store)
  with drawFrameToBuffer_nearest_ready [OF r' r o', where a = "Image 5 1920 1080" and b = "Image 9 1920 1080"]
  have f: "drawFrameToBuffer 12 (onResize desktop (init desktop)) = onResize desktop (init desktop)"
    by simp
  show ?thesis
    using two_loaded_reachable r p d x r' o' e f by (simp add: two_loaded_view)
qed

section \<open>A tick with nothing new to show\<close>

text \<open>
  Claim C6 (no redundant draw). On a tick whose rounded smoothed frame equals the
  displayed-frame marker, \<^verbatim>\<open>animate\<close> only stores the timestamp and the six smoothed values:
  the result is the old state with these fields updated, with no call of
  \<^verbatim>\<open>drawFrameToBuffer\<close> or \<^verbatim>\<open>blitBuffer\<close> in it. The trace of effects, the marker and the
  offscreen buffer are the same as before.
\<close>

theorem animate_no_redundant_draw:
  assumes "renderFrame ts s = displayedFrame s"
  shows "animate ts s =
           s\<lparr> lastTime := ts,
              smoothScrollY := lerp (smoothScrollY s) (targetScrollY s) LERP_FACTOR (animate_dt ts s),
              smoothScrollProgress :=
                lerp (smoothScrollProgress s) (targetScrollProgress s) CANVAS_LERP (animate_dt ts s),
              currentFrame := animate_sf ts s,
              smoothMouseX := smoothMouseX s + (mouseX s - smoothMouseX s) * (4 / 100),
              smoothMouseY := smoothMouseY s + (mouseY s - smoothMouseY s) * (4 / 100) \<rparr>
       \<and> trace (animate ts s) = trace s
       \<and> displayedFrame (animate ts s) = displayedFrame s
       \<and> offBuffer (animate ts s) = offBuffer s"
  using assms by (simp add: animate_def renderFrame_def Let_def)

theorem animate_no_redundant_draw_witness:
  "renderFrame 1016 first_shown = displayedFrame first_shown
   \<and> displayedFrame first_shown = 0
   \<and> trace (animate 1016 first_shown) = trace first_shown
   \<and> displayedFrame (animate 1016 first_shown) = 0
   \<and> offBuffer (animate 1016 first_shown) = offBuffer first_shown
   \<and> renderFrame 1000 first_loaded \<noteq> displayedFrame first_loaded
   \<and> length (trace first_shown) = length (trace first_loaded) + 3"
proof -
  have sf: "animate_sf 1016 first_shown = 0"
    by (simp add: animate_sf_def first_shown_view lerp_same)
  then have rf: "renderFrame 1016 first_shown = displayedFrame first_shown"
    by (simp add: renderFrame_def Math_round_def first_shown_view)
  have sf0: "animate_sf 1000 first_loaded = 0"
    by (simp add: animate_sf_def first_loaded_view lerp_same)
  then have rf0: "renderFrame 1000 first_loaded = 0"
    by (simp add: renderFrame_def Math_round_def)
  have pick: "pick_image (frames first_loaded) 0 = Some (Image 0 1920 1080)"
    by (simp add: pick_image_here first_loaded_def img_onload_frames)
  have tr: "length (trace first_shown) = length (trace first_loaded) + 3"
    by (simp add: first_shown_def animate_view rf0 first_loaded_view FRAME_COUNT_def
        blitBuffer_def drawFrameToBuffer_def pick Let_def split: prod.split)
  from animate_no_redundant_draw [OF rf] rf rf0 tr show ?thesis
    by (simp add: first_shown_view first_loaded_view)
qed

end
